theory Spec2Isabelle
  imports Main "HOL-Library.AList"
begin

section \<open>The responsive layout element of src/elements/base.ts\<close>

text \<open>
  The class \<open>BaseLayout\<close> keeps, per attribute key, a reference-counted map of the values
  that the host and its children carry, and rebuilds one style block per breakpoint from
  it. The embedding follows the TypeScript source function by function. JavaScript maps
  and objects are association lists in insertion order: \<open>Map.set\<close> and property
  assignment are \<open>AList.update\<close> (in place for a key that is present, at the end for a new
  one), \<open>Map.delete\<close> is \<open>AList.delete\<close>, \<open>Map.get\<close> is \<open>map_of\<close>. (\<open>Object.keys\<close>
  lists keys in insertion order as long as no key is a canonical array index; selectors
  and CSS property names are not.) Counts are JavaScript numbers holding integers, here
  \<open>int\<close>. A thrown \<open>TypeError\<close> is a value; the state that the call had reached when it
  was thrown is the state the element is left in.
\<close>

subsection \<open>Data\<close>

type_synonym decls = "(string \<times> string) list"

type_synonym cssObject = "(string \<times> decls) list"

type_synonym valueMap = "(string \<times> int) list"

datatype css = Str string | Obj "(string \<times> css) list"

datatype error = TypeError

text \<open>
  \<open>Property\<close> and \<open>BreakPointProperty\<close> are declared in config.ts, which is not part of the
  sources at hand; the fields are the ones base.ts reads and the specification lists. The
  update function returns the pair of a host fragment and an optional child fragment,
  both maps from strings to strings, and is a function of the value and the alias.
\<close>

record property =
  name :: string
  child :: bool
  updateFn :: "string \<Rightarrow> string \<Rightarrow> decls \<times> decls option"

text \<open>
  The list of a breakpoint's active properties can hold \<open>undefined\<close> (\<open>None\<close>): line 48
  pushes whatever the lookup of line 46 returned.
\<close>

record breakPointProperty =
  "alias" :: string
  mediaQuery :: string
  overlapping :: bool
  properties :: "property option list"

text \<open>
  The children of the shadow root: style elements, with their id (if any) and their text,
  and the slot.
\<close>

datatype node = Style "string option" string | Slot

record baseLayout =
  this_breakpoints :: "breakPointProperty list"
  this_layoutType :: string
  this_allBreakpoint :: breakPointProperty
  this_properties :: "property list"
  this_propertyMap :: "(string \<times> valueMap) list"
  this_shadowRoot :: "node list"

text \<open>
  The result of \<open>getBreakpointByAlias\<close> is a reference to one of the element's breakpoint
  objects; line 48 mutates the object behind it.
\<close>

datatype bpRef = Registered nat | AllBreakpoint

subsection \<open>Strings\<close>

definition SEPARATOR :: char where
  "SEPARATOR = CHR ''-''"

text \<open>
  \<open>s.split(c)\<close> for a separator of one character. The array that JavaScript returns is
  never empty: it is given as its first piece and the list of the pieces after it, which
  is how line 43 takes it apart.
\<close>

fun split :: "char \<Rightarrow> string \<Rightarrow> string \<times> string list" where
  "split c [] = ([], [])"
| "split c (x # xs) =
     (case split c xs of
        (w, ws) \<Rightarrow> (if x = c then ([], w # ws) else (x # w, ws)))"

fun join :: "char \<Rightarrow> string list \<Rightarrow> string" where
  "join c [] = []"
| "join c [w] = w"
| "join c (w # ws) = w @ [c] @ join c ws"

subsection \<open>The constructor (lines 15-35)\<close>

definition allBreakpoint :: breakPointProperty where
  "allBreakpoint = \<lparr>alias = '''', mediaQuery = ''all'', overlapping = False, properties = []\<rparr>"

definition constructor ::
  "breakPointProperty list \<Rightarrow> string \<Rightarrow> property list \<Rightarrow> baseLayout" where
  "constructor getBps layoutType props =
     \<lparr>this_breakpoints = getBps,
      this_layoutType = layoutType,
      this_allBreakpoint = allBreakpoint,
      this_properties = props,
      this_propertyMap = [],
      this_shadowRoot =
        [Style None '':host {contain: content;}'',
         Style (Some (layoutType @ ''-all''))
           (''@media all {:host {display: '' @ layoutType @ '';}}''),
         Slot]\<rparr>"

subsection \<open>Lookups (lines 200-223)\<close>

fun findIndex :: "('a \<Rightarrow> bool) \<Rightarrow> 'a list \<Rightarrow> nat option" where
  "findIndex P [] = None"
| "findIndex P (x # xs) =
     (if P x then Some 0 else map_option Suc (findIndex P xs))"

definition getBreakpointByAlias :: "string \<Rightarrow> baseLayout \<Rightarrow> bpRef" where
  "getBreakpointByAlias al this =
     (case findIndex (\<lambda>b. alias b = al) (this_breakpoints this) of
        Some bpIndex \<Rightarrow> Registered bpIndex
      | None \<Rightarrow> AllBreakpoint)"

fun deref :: "bpRef \<Rightarrow> baseLayout \<Rightarrow> breakPointProperty" where
  "deref (Registered i) this = this_breakpoints this ! i"
| "deref AllBreakpoint this = this_allBreakpoint this"

text \<open>\<open>bp.properties.push(property)\<close> on the object behind the reference.\<close>

fun push :: "bpRef \<Rightarrow> property option \<Rightarrow> baseLayout \<Rightarrow> baseLayout" where
  "push (Registered i) p this =
     this\<lparr>this_breakpoints :=
       (this_breakpoints this)
         [i := (this_breakpoints this ! i)
            \<lparr>properties := properties (this_breakpoints this ! i) @ [p]\<rparr>]\<rparr>"
| "push AllBreakpoint p this =
     this\<lparr>this_allBreakpoint :=
       (this_allBreakpoint this)\<lparr>properties := properties (this_allBreakpoint this) @ [p]\<rparr>\<rparr>"

text \<open>
  \<open>bp.properties.findIndex(p => p.name === prop)\<close>: reading \<open>name\<close> of an \<open>undefined\<close>
  entry throws.
\<close>

fun findIndexByName :: "string \<Rightarrow> property option list \<Rightarrow> error + nat option" where
  "findIndexByName prop [] = Inr None"
| "findIndexByName prop (None # ps) = Inl TypeError"
| "findIndexByName prop (Some p # ps) =
     (if name p = prop then Inr (Some 0)
      else (case findIndexByName prop ps of
              Inl e \<Rightarrow> Inl e
            | Inr r \<Rightarrow> Inr (map_option Suc r)))"

definition getPropertyByName ::
  "breakPointProperty \<Rightarrow> string \<Rightarrow> baseLayout \<Rightarrow> error + (property option \<times> bool)" where
  "getPropertyByName bp prop this =
     (case findIndexByName prop (properties bp) of
        Inl e \<Rightarrow> Inl e
      | Inr (Some bpPropIndex) \<Rightarrow> Inr (properties bp ! bpPropIndex, False)
      | Inr None \<Rightarrow> Inr (find (\<lambda>p. name p = prop) (this_properties this), True))"

definition valuesKey :: "string \<Rightarrow> string \<Rightarrow> string" where
  "valuesKey prop al = (if al \<noteq> [] then prop @ ''.'' @ al else prop)"

definition getValues :: "string \<Rightarrow> string \<Rightarrow> baseLayout \<Rightarrow> valueMap \<times> baseLayout" where
  "getValues prop al this =
     (let key = valuesKey prop al in
      case map_of (this_propertyMap this) key of
        None \<Rightarrow> ([], this\<lparr>this_propertyMap := AList.update key [] (this_propertyMap this)\<rparr>)
      | Some m \<Rightarrow> (m, this))"

subsection \<open>The value tracker (lines 51-62)\<close>

text \<open>
  \<open>values\<close> is the map object stored under the key; the three statements of lines 52-62
  mutate it in place. \<open>updateCounts\<close> is their effect on the map, \<open>setValues\<close> puts the
  mutated map back under its key.
\<close>

definition updateCounts :: "string option \<Rightarrow> string option \<Rightarrow> valueMap \<Rightarrow> valueMap" where
  "updateCounts oldValue newValue values =
     (let values1 =
        (case oldValue of
           None \<Rightarrow> values
         | Some ov \<Rightarrow>
             (case map_of values ov of
                None \<Rightarrow> values
              | Some n \<Rightarrow> AList.update ov (n - 1) values));
          values2 =
        (case newValue of
           None \<Rightarrow> values1
         | Some nv \<Rightarrow>
             AList.update nv
               ((case map_of values1 nv of
                   None \<Rightarrow> 0
                 | Some n \<Rightarrow> (if n = 0 then 0 else n)) + 1) values1)
      in (case oldValue of
            None \<Rightarrow> values2
          | Some ov \<Rightarrow>
              (if map_of values2 ov = Some 0 then AList.delete ov values2 else values2)))"

definition setValues :: "string \<Rightarrow> valueMap \<Rightarrow> baseLayout \<Rightarrow> baseLayout" where
  "setValues key values this =
     this\<lparr>this_propertyMap := AList.update key values (this_propertyMap this)\<rparr>"

subsection \<open>CSS synthesis (lines 148-198)\<close>

definition parentKey :: string where
  "parentKey = '':host''"

definition allChildKey :: string where
  "allChildKey = parentKey @ ''>*''"

definition wrapChildKey :: "string \<Rightarrow> string" where
  "wrapChildKey childKey = ''::slotted('' @ childKey @ '')''"

text \<open>
  \<open>properties.filter(p => p.child)\<close> and \<open>properties.filter(p => !p.child)\<close>: the
  callback reads \<open>child\<close> of every entry and throws at an \<open>undefined\<close> one.
\<close>

fun filterChild :: "bool \<Rightarrow> property option list \<Rightarrow> error + property list" where
  "filterChild c [] = Inr []"
| "filterChild c (None # ps) = Inl TypeError"
| "filterChild c (Some p # ps) =
     (case filterChild c ps of
        Inl e \<Rightarrow> Inl e
      | Inr r \<Rightarrow> Inr (if child p = c then p # r else r))"

text \<open>\<open>for (let key of Object.keys(fragment)) bucket[key] = fragment[key]\<close>\<close>

fun assign :: "decls \<Rightarrow> decls \<Rightarrow> decls" where
  "assign [] bucket = bucket"
| "assign ((key, v) # fragment) bucket = assign fragment (AList.update key v bucket)"

text \<open>
  The loop of lines 164-179 over the host-scoped properties. It writes the two buckets
  \<open>css[parentKey]\<close> and \<open>css[allChildKey]\<close> created at lines 161-162. \<open>Object.keys\<close> of
  an absent child fragment throws, after the host fragment has been merged.
\<close>

fun parentLoop ::
  "string \<Rightarrow> property list \<Rightarrow> decls \<times> decls \<Rightarrow> baseLayout
     \<Rightarrow> (error + decls \<times> decls) \<times> baseLayout" where
  "parentLoop al [] buckets this = (Inr buckets, this)"
| "parentLoop al (parentProp # ps) (host, allChild) this =
     (case getValues (name parentProp) al this of
        (values, this') \<Rightarrow>
          (case values of
             [] \<Rightarrow> parentLoop al ps (host, allChild) this'
           | (v, n) # rest \<Rightarrow>
               (case updateFn parentProp v al of
                  (hostCss, None) \<Rightarrow> (Inl TypeError, this')
                | (hostCss, Some childCss) \<Rightarrow>
                    parentLoop al ps (assign hostCss host, assign childCss allChild) this')))"

definition childKeyOf :: "string \<Rightarrow> string \<Rightarrow> string \<Rightarrow> string" where
  \<open>childKeyOf propName al key =
     wrapChildKey (''['' @ (if al \<noteq> [] then propName @ [SEPARATOR] @ al else propName)
                   @ ''="'' @ key @ ''"]'')\<close>

text \<open>The inner loop of lines 184-189 over the keys of one child-scoped property's map.\<close>

fun keysLoop :: "property \<Rightarrow> string \<Rightarrow> string list \<Rightarrow> cssObject \<Rightarrow> cssObject" where
  "keysLoop childProp al [] css = css"
| "keysLoop childProp al (key # keys) css =
     keysLoop childProp al keys
       (AList.update (childKeyOf (name childProp) al key) (fst (updateFn childProp key al)) css)"

text \<open>The loop of lines 181-190 over the child-scoped properties.\<close>

fun childLoop ::
  "string \<Rightarrow> property list \<Rightarrow> cssObject \<Rightarrow> baseLayout \<Rightarrow> cssObject \<times> baseLayout" where
  "childLoop al [] css this = (css, this)"
| "childLoop al (childProp # ps) css this =
     (case getValues (name childProp) al this of
        (values, this') \<Rightarrow> childLoop al ps (keysLoop childProp al (map fst values) css) this')"

text \<open>Lines 192-195: the display declaration.\<close>

definition addDisplay :: "bool \<Rightarrow> string \<Rightarrow> bool \<Rightarrow> cssObject \<Rightarrow> error + cssObject" where
  "addDisplay inline layoutType applyDefaults css =
     (case map_of css parentKey of
        None \<Rightarrow> Inl TypeError
      | Some bucket \<Rightarrow>
          (let parentSize = length bucket in
           if parentSize \<noteq> 0 \<or> applyDefaults
           then Inr (AList.update parentKey
                  (AList.update ''display''
                     (if inline then ''inline-'' @ layoutType else layoutType) bucket) css)
           else Inr css))"

definition buildCss ::
  "string \<Rightarrow> property option list \<Rightarrow> bool \<Rightarrow> string \<Rightarrow> bool \<Rightarrow> baseLayout
     \<Rightarrow> (error + cssObject) \<times> baseLayout" where
  "buildCss al props inline layoutType applyDefaults this =
     (case filterChild False props of
        Inl e \<Rightarrow> (Inl e, this)
      | Inr parentProps \<Rightarrow>
     (case filterChild True props of
        Inl e \<Rightarrow> (Inl e, this)
      | Inr childProps \<Rightarrow>
     (case parentLoop al parentProps ([], []) this of
        (Inl e, this1) \<Rightarrow> (Inl e, this1)
      | (Inr (host, allChild), this1) \<Rightarrow>
     (case childLoop al childProps [(parentKey, host), (allChildKey, allChild)] this1 of
        (css, this2) \<Rightarrow> (addDisplay inline layoutType applyDefaults css, this2)))))"

subsection \<open>Serialisation and the style blocks (lines 106-141)\<close>

fun truthy :: "css \<Rightarrow> bool" where
  "truthy (Str s) = (s \<noteq> [])"
| "truthy (Obj kvs) = True"

text \<open>\<open>x.length\<close> as a condition: the length of a string, the property of that name of an object.\<close>

fun lengthTruthy :: "css \<Rightarrow> bool" where
  "lengthTruthy (Str s) = (s \<noteq> [])"
| "lengthTruthy (Obj kvs) =
     (case map_of kvs ''length'' of None \<Rightarrow> False | Some v \<Rightarrow> truthy v)"

fun toString :: "css \<Rightarrow> string" where
  "toString (Str s) = s"
| "toString (Obj kvs) = ''[object Object]''"

fun unwrapCss :: "css \<Rightarrow> css" where
  "unwrapCss (Str s) = Str s"
| "unwrapCss (Obj kvs) =
     (if lengthTruthy (Obj kvs) then Obj kvs
      else Str (concat (map (\<lambda>(key, v).
             (let addCss = unwrapCss v in
              if truthy addCss
              then (if \<not> lengthTruthy v
                    then key @ '' {'' @ toString addCss @ ''}''
                    else key @ '': '' @ toString addCss @ '';'')
              else [])) kvs)))"

definition declsCss :: "decls \<Rightarrow> css" where
  "declsCss d = Obj (map (\<lambda>(key, v). (key, Str v)) d)"

definition objectCss :: "cssObject \<Rightarrow> css" where
  "objectCss css = Obj (map (\<lambda>(key, d). (key, declsCss d)) css)"

definition styleId :: "string \<Rightarrow> string \<Rightarrow> string" where
  "styleId layoutType al = layoutType @ ''-'' @ (if al \<noteq> [] then al else ''all'')"

definition hasId :: "string \<Rightarrow> node \<Rightarrow> bool" where
  "hasId i n = (case n of Style (Some j) t \<Rightarrow> j = i | _ \<Rightarrow> False)"

definition getElementById :: "string \<Rightarrow> node list \<Rightarrow> nat option" where
  "getElementById i nodes = findIndex (hasId i) nodes"

text \<open>
  \<open>insertBefore(newChild, ref)\<close>, where \<open>ref\<close> is the k-th child, or nothing (the new
  child is appended).
\<close>

definition insertBefore :: "node \<Rightarrow> nat option \<Rightarrow> node list \<Rightarrow> node list" where
  "insertBefore n r nodes =
     (case r of None \<Rightarrow> nodes @ [n] | Some k \<Rightarrow> take k nodes @ [n] @ drop k nodes)"

definition setInnerHTML :: "string \<Rightarrow> node \<Rightarrow> node" where
  "setInnerHTML t n = (case n of Style i old \<Rightarrow> Style i t | Slot \<Rightarrow> Slot)"

definition attachCss :: "css \<Rightarrow> string \<Rightarrow> string \<Rightarrow> baseLayout \<Rightarrow> baseLayout" where
  "attachCss css mq al this =
     (let i = styleId (this_layoutType this) al;
          styleElement = getElementById i (this_shadowRoot this);
          cssStyles = toString (unwrapCss css);
          text = ''@media '' @ mq @ '' {'' @ cssStyles @ ''}''
      in (case styleElement of
            None \<Rightarrow>
              (let slotElement =
                 (if al \<noteq> [] then findIndex (\<lambda>n. n = Slot) (this_shadowRoot this)
                  else if 1 < length (this_shadowRoot this) then Some 1 else None)
               in this\<lparr>this_shadowRoot :=
                    insertBefore (Style (Some i) text) slotElement (this_shadowRoot this)\<rparr>)
          | Some k \<Rightarrow>
              this\<lparr>this_shadowRoot :=
                (this_shadowRoot this)[k := setInnerHTML text (this_shadowRoot this ! k)]\<rparr>))"

subsection \<open>The attribute change callback (lines 42-68)\<close>

text \<open>
  \<open>hasAttribute\<close> is the host element's \<open>hasAttribute\<close> at the time of the call. The
  result is the error thrown, if any, and the state of the element afterwards.
\<close>

definition attributeChangedCallback ::
  "(string \<Rightarrow> bool) \<Rightarrow> string \<Rightarrow> string option \<Rightarrow> string option \<Rightarrow> baseLayout
     \<Rightarrow> error option \<times> baseLayout" where
  "attributeChangedCallback hasAttribute nm oldValue newValue this =
     (case split SEPARATOR nm of
        (prop, remainder) \<Rightarrow>
     (let al = join SEPARATOR remainder;
          bp = getBreakpointByAlias al this
      in (case getPropertyByName (deref bp this) prop this of
            Inl e \<Rightarrow> (Some e, this)
          | Inr (property, newProp) \<Rightarrow>
     (let this1 = (if newProp then push bp property this else this) in
      (case getValues prop al this1 of
         (values, this2) \<Rightarrow>
     (let this3 = setValues (valuesKey prop al) (updateCounts oldValue newValue values) this2;
          bp3 = deref bp this3;
          inlineAttr =
            (if alias bp3 \<noteq> [] then ''inline'' @ [SEPARATOR] @ alias bp3 else ''inline'')
      in (case buildCss (alias bp3) (properties bp3) (hasAttribute inlineAttr)
                 (this_layoutType this3) (al \<noteq> []) this3 of
            (Inl e, this4) \<Rightarrow> (Some e, this4)
          | (Inr css, this4) \<Rightarrow>
              (None, attachCss (objectCss css) (mediaQuery bp3) (alias bp3) this4))))))))"

subsection \<open>Sequences of attribute changes\<close>

text \<open>
  One change as the platform delivers it: the attribute name and the two values, the
  element that carries the attribute (not seen by the callback), and the attributes that
  the host has at that time (read by \<open>hasAttribute\<close>).
\<close>

record change =
  target :: nat
  attributeName :: string
  oldValue :: "string option"
  newValue :: "string option"
  hostAttributes :: "string list"

definition deliver :: "change \<Rightarrow> baseLayout \<Rightarrow> error option \<times> baseLayout" where
  "deliver c this =
     attributeChangedCallback (\<lambda>a. a \<in> set (hostAttributes c))
       (attributeName c) (oldValue c) (newValue c) this"

fun deliverAll :: "change list \<Rightarrow> baseLayout \<Rightarrow> baseLayout" where
  "deliverAll [] this = this"
| "deliverAll (c # cs) this = deliverAll cs (snd (deliver c this))"

section \<open>Observations, invariants and scenarios\<close>

subsection \<open>The phases of the callback\<close>

text \<open>
  \<open>propOf\<close> and \<open>aliasOf\<close> are the two names decoded at lines 43-44, \<open>bpOf\<close> the
  breakpoint reference of line 45. \<open>tracked\<close> is the state after lines 47-62, given
  what the lookup of line 46 returned; \<open>afterTracker\<close> is that state for the lookup the
  code makes, or the error the lookup throws. \<open>rebuild\<close> is the call of line 65-66 and
  \<open>synthesized\<close> the CSS object it returns within the callback.
\<close>

definition propOf :: "string \<Rightarrow> string" where
  "propOf nm = fst (split SEPARATOR nm)"

definition aliasOf :: "string \<Rightarrow> string" where
  "aliasOf nm = join SEPARATOR (snd (split SEPARATOR nm))"

definition bpOf :: "string \<Rightarrow> baseLayout \<Rightarrow> bpRef" where
  "bpOf nm this = getBreakpointByAlias (aliasOf nm) this"

definition tracked ::
  "string \<Rightarrow> string option \<Rightarrow> string option \<Rightarrow> property option \<Rightarrow> bool
     \<Rightarrow> baseLayout \<Rightarrow> baseLayout" where
  "tracked nm ov nv property newProp this =
     (case getValues (propOf nm) (aliasOf nm)
             (if newProp then push (bpOf nm this) property this else this) of
        (vals, this2) \<Rightarrow>
          setValues (valuesKey (propOf nm) (aliasOf nm)) (updateCounts ov nv vals) this2)"

definition rebuild :: "(string \<Rightarrow> bool) \<Rightarrow> bool \<Rightarrow> breakPointProperty \<Rightarrow> baseLayout
    \<Rightarrow> (error + cssObject) \<times> baseLayout" where
  "rebuild h applyDefaults bp this =
     buildCss (alias bp) (properties bp)
       (h (if alias bp \<noteq> [] then ''inline'' @ [SEPARATOR] @ alias bp else ''inline''))
       (this_layoutType this) applyDefaults this"

definition afterTracker ::
  "string \<Rightarrow> string option \<Rightarrow> string option \<Rightarrow> baseLayout \<Rightarrow> error + baseLayout" where
  "afterTracker nm ov nv this =
     (case getPropertyByName (deref (bpOf nm this) this) (propOf nm) this of
        Inl e \<Rightarrow> Inl e
      | Inr (property, newProp) \<Rightarrow> Inr (tracked nm ov nv property newProp this))"

definition synthesized ::
  "(string \<Rightarrow> bool) \<Rightarrow> string \<Rightarrow> string option \<Rightarrow> string option \<Rightarrow> baseLayout
     \<Rightarrow> error + cssObject" where
  "synthesized h nm ov nv this =
     (case afterTracker nm ov nv this of
        Inl e \<Rightarrow> Inl e
      | Inr this3 \<Rightarrow> fst (rebuild h (aliasOf nm \<noteq> []) (deref (bpOf nm this) this3) this3))"

subsection \<open>Reading the tracker\<close>

text \<open>
  \<open>valuesOf\<close> reads the map stored under a key, an absent map read as the empty one
  (which is what \<open>getValues\<close> returns for it); \<open>touched\<close> is the state \<open>getValues\<close>
  leaves. \<open>countOf\<close> is the count stored for a value, an absent entry counted 0.
  \<open>countsOk\<close> says that every stored map has distinct keys and counts of at least 1.
\<close>

definition valuesOf :: "baseLayout \<Rightarrow> string \<Rightarrow> valueMap" where
  "valuesOf this key = (case map_of (this_propertyMap this) key of None \<Rightarrow> [] | Some m \<Rightarrow> m)"

definition firstKey :: "valueMap \<Rightarrow> string option" where
  "firstKey m = (case m of [] \<Rightarrow> None | (v, n) # rest \<Rightarrow> Some v)"

definition touched :: "string \<Rightarrow> string \<Rightarrow> baseLayout \<Rightarrow> baseLayout" where
  "touched p al this = snd (getValues p al this)"

definition countIn :: "valueMap \<Rightarrow> string \<Rightarrow> int" where
  "countIn m v = (case map_of m v of None \<Rightarrow> 0 | Some n \<Rightarrow> n)"

definition countOf :: "baseLayout \<Rightarrow> string \<Rightarrow> string \<Rightarrow> int" where
  "countOf this key v = countIn (valuesOf this key) v"

definition mapOk :: "valueMap \<Rightarrow> bool" where
  "mapOk m = (distinct (map fst m) \<and> (\<forall>(v, n) \<in> set m. 1 \<le> n))"

definition countsOk :: "baseLayout \<Rightarrow> bool" where
  "countsOk this = (\<forall>(key, m) \<in> set (this_propertyMap this). mapOk m)"

subsection \<open>Reading the CSS object and the style blocks\<close>

text \<open>
  \<open>hostAfterParentLoop\<close> is the host bucket as the loop over the host-scoped properties
  leaves it; \<open>hostRules\<close> are the two buckets that loop writes, read from the returned
  object. \<open>synthesize\<close> is \<open>buildCss\<close> followed by the serialisation of
  \<open>attachCss\<close>. \<open>styleBlock\<close> is the text of the style element that
  \<open>getElementById\<close> finds for an id.
\<close>

definition hostAfterParentLoop :: "string \<Rightarrow> property option list \<Rightarrow> baseLayout \<Rightarrow> decls option" where
  "hostAfterParentLoop al props this =
     (case filterChild False props of
        Inl e \<Rightarrow> None
      | Inr parentProps \<Rightarrow>
          (case fst (parentLoop al parentProps ([], []) this) of
             Inl e \<Rightarrow> None
           | Inr (host, allChild) \<Rightarrow> Some host))"

definition hostRules :: "error + cssObject \<Rightarrow> error + decls option \<times> decls option" where
  "hostRules r =
     (case r of Inl e \<Rightarrow> Inl e | Inr css \<Rightarrow> Inr (map_of css parentKey, map_of css allChildKey))"


definition synthesize ::
  "string \<Rightarrow> property option list \<Rightarrow> bool \<Rightarrow> string \<Rightarrow> bool \<Rightarrow> baseLayout
     \<Rightarrow> (error + string) \<times> baseLayout" where
  "synthesize al props inline layoutType applyDefaults this =
     (case buildCss al props inline layoutType applyDefaults this of
        (Inl e, this') \<Rightarrow> (Inl e, this')
      | (Inr css, this') \<Rightarrow> (Inr (toString (unwrapCss (objectCss css))), this'))"

definition textOf :: "node \<Rightarrow> string option" where
  "textOf n = (case n of Style i t \<Rightarrow> Some t | Slot \<Rightarrow> None)"

definition styleBlock :: "string \<Rightarrow> baseLayout \<Rightarrow> string option" where
  "styleBlock i this =
     (case getElementById i (this_shadowRoot this) of
        None \<Rightarrow> None
      | Some k \<Rightarrow> textOf (this_shadowRoot this ! k))"

subsection \<open>The tie-break of the host-scoped properties, as specified\<close>

text \<open>
  Step 2 of section 4.3 of the specification: for each host-scoped property with at least
  one tracked value, the value at iteration position 0 of its map is picked, the update
  function is invoked with that value and the alias, and the host and wildcard-child
  contributions are merged into the two buckets, later properties overwriting earlier
  ones on a key collision. \<open>firstValueOf\<close> is the value at position 0 of a property's
  map. \<open>firstValueMerge\<close> is that step, given nothing of the tracker but a choice of
  first values; \<open>firstValueRules\<close> are the two buckets once step 4 has added the
  display declaration. These definitions follow the words of the specification and are
  compared with \<open>buildCss\<close> below.
\<close>

definition firstValueOf :: "baseLayout \<Rightarrow> string \<Rightarrow> property \<Rightarrow> string option" where
  "firstValueOf this al p = firstKey (valuesOf this (valuesKey (name p) al))"

fun firstValueMerge ::
  "string \<Rightarrow> property list \<Rightarrow> (property \<Rightarrow> string option) \<Rightarrow> decls \<times> decls
     \<Rightarrow> error + decls \<times> decls" where
  "firstValueMerge al [] first buckets = Inr buckets"
| "firstValueMerge al (p # ps) first (host, allChild) =
     (case first p of
        None \<Rightarrow> firstValueMerge al ps first (host, allChild)
      | Some v \<Rightarrow>
          (case updateFn p v al of
             (hostCss, None) \<Rightarrow> Inl TypeError
           | (hostCss, Some childCss) \<Rightarrow>
               firstValueMerge al ps first (assign hostCss host, assign childCss allChild)))"

definition firstValueRules ::
  "string \<Rightarrow> property option list \<Rightarrow> bool \<Rightarrow> string \<Rightarrow> bool \<Rightarrow> (property \<Rightarrow> string option)
     \<Rightarrow> error + decls option \<times> decls option" where
  "firstValueRules al props inline layoutType applyDefaults first =
     (case filterChild False props of
        Inl e \<Rightarrow> Inl e
      | Inr hostProps \<Rightarrow>
          (case firstValueMerge al hostProps first ([], []) of
             Inl e \<Rightarrow> Inl e
           | Inr (host, allChild) \<Rightarrow>
               Inr (Some (if host \<noteq> [] \<or> applyDefaults
                          then AList.update ''display''
                                 (if inline then ''inline-'' @ layoutType else layoutType) host
                          else host),
                    Some allChild)))"

subsection \<open>The attributes that elements carry\<close>

text \<open>
  What the elements carry is not part of the element's state: it is followed beside it.
  A slot is an element with a decoded property name and alias; \<open>carriedAfter\<close> is what
  the slots hold after a sequence of changes. A sequence is well-formed when every
  change's old value is what its slot held before. \<open>carriers\<close> are the slots of one
  tracker key that hold a value, \<open>elementsCarrying\<close> the elements that hold it for one
  property and alias.
\<close>

type_synonym carried = "nat \<times> string \<times> string \<Rightarrow> string option"

definition slotOf :: "change \<Rightarrow> nat \<times> string \<times> string" where
  "slotOf c = (target c, propOf (attributeName c), aliasOf (attributeName c))"

fun wellFormed :: "carried \<Rightarrow> change list \<Rightarrow> bool" where
  "wellFormed g [] = True"
| "wellFormed g (c # cs) =
     (oldValue c = g (slotOf c) \<and> wellFormed (g(slotOf c := newValue c)) cs)"

fun carriedAfter :: "carried \<Rightarrow> change list \<Rightarrow> carried" where
  "carriedAfter g [] = g"
| "carriedAfter g (c # cs) = carriedAfter (g(slotOf c := newValue c)) cs"

definition nothingCarried :: carried where
  "nothingCarried x = None"

definition carriers :: "carried \<Rightarrow> string \<Rightarrow> string \<Rightarrow> (nat \<times> string \<times> string) set" where
  "carriers g key v = {(e, p, a). valuesKey p a = key \<and> g (e, p, a) = Some v}"

definition elementsCarrying :: "carried \<Rightarrow> string \<Rightarrow> string \<Rightarrow> string \<Rightarrow> nat set" where
  "elementsCarrying g pr al v = {e. g (e, pr, al) = Some v}"

subsection \<open>Invariants\<close>

definition sameElement :: "baseLayout \<Rightarrow> baseLayout \<Rightarrow> bool" where
  "sameElement a b =
     (this_breakpoints a = this_breakpoints b \<and> this_allBreakpoint a = this_allBreakpoint b \<and>
      this_layoutType a = this_layoutType b \<and> this_properties a = this_properties b \<and>
      this_shadowRoot a = this_shadowRoot b)"

definition noUndefined :: "baseLayout \<Rightarrow> bool" where
  "noUndefined this =
     ((\<forall>b \<in> set (this_breakpoints this). None \<notin> set (properties b))
      \<and> None \<notin> set (properties (this_allBreakpoint this)))"

definition tracks :: "baseLayout \<Rightarrow> carried \<Rightarrow> bool" where
  "tracks this g =
     (finite {x. g x \<noteq> None}
      \<and> (\<forall>key v. countOf this key v = int (card (carriers g key v))))"

definition namesOf :: "property option list \<Rightarrow> string option list" where
  "namesOf ps = map (map_option name) ps"

subsection \<open>Scenarios\<close>

text \<open>
  A layout of type flex with one breakpoint \<open>sm\<close>, a host-scoped property \<open>gap\<close> and a
  child-scoped property \<open>order\<close>; and three configurations at the edge of what the
  element accepts: a property name with a dot, a property name with a quote, and a
  breakpoint whose alias is the word all.
\<close>

definition gapProperty :: property where
  "gapProperty = \<lparr>name = ''gap'', child = False, updateFn = (\<lambda>v al. ([(''gap'', v)], Some []))\<rparr>"

definition orderProperty :: property where
  "orderProperty = \<lparr>name = ''order'', child = True, updateFn = (\<lambda>v al. ([(''order'', v)], None))\<rparr>"

definition smBreakpoint :: breakPointProperty where
  "smBreakpoint = \<lparr>alias = ''sm'', mediaQuery = ''(min-width: 600px)'', overlapping = False,
     properties = []\<rparr>"

definition exampleLayout :: baseLayout where
  "exampleLayout = constructor [smBreakpoint] ''flex'' [gapProperty, orderProperty]"

definition changeOf :: "nat \<Rightarrow> string \<Rightarrow> string option \<Rightarrow> string option \<Rightarrow> change" where
  "changeOf t nm ov nv =
     \<lparr>target = t, attributeName = nm, oldValue = ov, newValue = nv, hostAttributes = []\<rparr>"

definition noAttributes :: "string \<Rightarrow> bool" where
  "noAttributes a = False"

definition gapSet :: baseLayout where
  "gapSet = deliverAll [changeOf 0 ''gap'' None (Some ''8px'')] exampleLayout"

definition gapSetTwice :: baseLayout where
  "gapSetTwice = deliverAll [changeOf 1 ''gap'' None (Some ''4px'')] gapSet"

definition gapRemoved :: baseLayout where
  "gapRemoved = deliverAll [changeOf 0 ''gap'' (Some ''8px'') None] gapSet"


definition exampleChanges :: "change list" where
  "exampleChanges =
     [changeOf 0 ''gap'' None (Some ''8px''), changeOf 1 ''order'' None (Some ''1''),
      changeOf 2 ''order'' None (Some ''1''), changeOf 1 ''order'' (Some ''1'') (Some ''2'')]"

definition dottedProperty :: property where
  "dottedProperty = \<lparr>name = ''a.b'', child = True, updateFn = (\<lambda>v al. ([(''order'', v)], None))\<rparr>"

definition plainProperty :: property where
  "plainProperty = \<lparr>name = ''a'', child = True, updateFn = (\<lambda>v al. ([(''color'', v)], None))\<rparr>"

definition dottedLayout :: baseLayout where
  "dottedLayout = constructor [] ''flex'' [dottedProperty, plainProperty]"

definition dottedSet :: baseLayout where
  "dottedSet = deliverAll [changeOf 1 ''a.b'' None (Some ''x'')] dottedLayout"

definition dottedFirst :: change where
  "dottedFirst = changeOf 1 ''a.b'' None (Some ''x'')"

definition dottedSecond :: change where
  "dottedSecond = changeOf 1 ''a-b'' None (Some ''x'')"

definition dottedChanges :: "change list" where
  "dottedChanges = [dottedFirst, dottedSecond]"




definition allBreakpointLayout :: baseLayout where
  "allBreakpointLayout =
     constructor [\<lparr>alias = ''all'', mediaQuery = ''print'', overlapping = False, properties = []\<rparr>]
       ''flex'' [gapProperty]"

section \<open>Properties\<close>

subsection \<open>Counts of at least one\<close>

lemma mapOk_iff:
  "mapOk m \<longleftrightarrow> distinct (map fst m) \<and> (\<forall>v n. map_of m v = Some n \<longrightarrow> 1 \<le> n)"
  unfolding mapOk_def by (auto dest: map_of_SomeD)

lemma set_update_subset: "set (AList.update k v al) \<subseteq> insert (k, v) (set al)"
  by (induction al) auto

lemma distinct_updateCounts:
  "distinct (map fst m) \<Longrightarrow> distinct (map fst (updateCounts ov nv m))"
  unfolding updateCounts_def Let_def
  by (simp add: distinct_update distinct_delete split: option.splits)

lemma positive_updateCounts:
  assumes "\<forall>v n. map_of m v = Some n \<longrightarrow> 1 \<le> n"
    and "map_of (updateCounts ov nv m) v = Some n"
  shows "1 \<le> n"
  using assms unfolding updateCounts_def Let_def
  by (fastforce simp add: update_conv' delete_conv' simp del: map_of_eq_Some_iff
      split: option.splits if_splits)

lemma mapOk_updateCounts: "mapOk m \<Longrightarrow> mapOk (updateCounts ov nv m)"
  unfolding mapOk_iff using distinct_updateCounts positive_updateCounts by blast

lemma countsOk_iff:
  "countsOk this \<longleftrightarrow> (\<forall>key m. (key, m) \<in> set (this_propertyMap this) \<longrightarrow> mapOk m)"
  unfolding countsOk_def by auto

lemma mapOk_Nil: "mapOk []"
  by (simp add: mapOk_def)

lemma countsOk_update:
  "countsOk this \<Longrightarrow> mapOk m \<Longrightarrow>
   countsOk (this\<lparr>this_propertyMap := AList.update k m (this_propertyMap this)\<rparr>)"
  unfolding countsOk_iff
  using set_update_subset[of k m "this_propertyMap this"] by auto

lemma countsOk_getValues:
  assumes "countsOk this" and "getValues p al this = (m, this')"
  shows "mapOk m \<and> countsOk this'"
proof (cases "map_of (this_propertyMap this) (valuesKey p al)")
  case None
  with assms(2) have "m = []"
    and "this' = this\<lparr>this_propertyMap := AList.update (valuesKey p al) [] (this_propertyMap this)\<rparr>"
    by (auto simp: getValues_def)
  then show ?thesis
    using countsOk_update[OF assms(1) mapOk_Nil] by (simp add: mapOk_Nil)
next
  case (Some m')
  with assms(2) have "m = m'" and "this' = this"
    by (auto simp: getValues_def)
  moreover from Some have "(valuesKey p al, m') \<in> set (this_propertyMap this)"
    by (rule map_of_SomeD)
  ultimately show ?thesis
    using assms(1) unfolding countsOk_iff by blast
qed

lemma countsOk_setValues:
  "countsOk this \<Longrightarrow> mapOk m \<Longrightarrow> countsOk (setValues k m this)"
  unfolding setValues_def by (rule countsOk_update)

lemma propertyMap_push [simp]: "this_propertyMap (push r p this) = this_propertyMap this"
  by (cases r) simp_all

lemma propertyMap_attachCss [simp]:
  "this_propertyMap (attachCss css mq al this) = this_propertyMap this"
  by (simp add: attachCss_def Let_def split: option.splits)

lemma countsOk_cong: "this_propertyMap a = this_propertyMap b \<Longrightarrow> countsOk a = countsOk b"
  by (simp add: countsOk_def)

lemma countsOk_parentLoop:
  "countsOk this \<Longrightarrow> countsOk (snd (parentLoop al ps b this))"
proof (induction al ps b this rule: parentLoop.induct)
  case (1 al buckets this)
  then show ?case by simp
next
  case (2 al parentProp ps host allChild this)
  obtain m this' where g: "getValues (name parentProp) al this = (m, this')"
    by (cases "getValues (name parentProp) al this")
  from countsOk_getValues[OF "2.prems" g] have ok: "countsOk this'" by simp
  show ?case
  proof (cases m)
    case Nil
    with g ok "2.IH"(1) show ?thesis by simp
  next
    case (Cons vn rest)
    obtain v n where vn: "vn = (v, n)" by (cases vn)
    obtain hostCss cc where u: "updateFn parentProp v al = (hostCss, cc)"
      by (cases "updateFn parentProp v al")
    show ?thesis
    proof (cases cc)
      case None
      with g Cons vn u ok show ?thesis by simp
    next
      case (Some childCss)
      with g Cons vn u ok "2.IH"(2) show ?thesis by simp
    qed
  qed
qed

lemma countsOk_childLoop:
  "countsOk this \<Longrightarrow> countsOk (snd (childLoop al ps css this))"
proof (induction al ps css this rule: childLoop.induct)
  case (1 al css this)
  then show ?case by simp
next
  case (2 al childProp ps css this)
  obtain m this' where g: "getValues (name childProp) al this = (m, this')"
    by (cases "getValues (name childProp) al this")
  from countsOk_getValues[OF "2.prems" g] have "countsOk this'" by simp
  with g "2.IH" show ?case by simp
qed

lemma countsOk_buildCss:
  "countsOk this \<Longrightarrow> countsOk (snd (buildCss al props inl lt ad this))"
  unfolding buildCss_def
  using countsOk_parentLoop countsOk_childLoop
  by (auto split: sum.splits prod.splits) (metis snd_conv)+

lemma attributeChangedCallback_unfold:
  "attributeChangedCallback h nm ov nv this =
     (case getPropertyByName (deref (bpOf nm this) this) (propOf nm) this of
        Inl e \<Rightarrow> (Some e, this)
      | Inr (property, newProp) \<Rightarrow>
          (let this3 = tracked nm ov nv property newProp this;
               bp3 = deref (bpOf nm this) this3
           in (case fst (rebuild h (aliasOf nm \<noteq> []) bp3 this3) of
                 Inl e \<Rightarrow> (Some e, snd (rebuild h (aliasOf nm \<noteq> []) bp3 this3))
               | Inr css \<Rightarrow>
                   (None, attachCss (objectCss css) (mediaQuery bp3) (alias bp3)
                            (snd (rebuild h (aliasOf nm \<noteq> []) bp3 this3))))))"
proof (cases "split SEPARATOR nm")
  case (Pair pname remainder)
  then show ?thesis
    by (simp add: attributeChangedCallback_def propOf_def aliasOf_def bpOf_def tracked_def
        rebuild_def Let_def split: sum.splits prod.splits)
qed

lemma countsOk_tracked:
  assumes "countsOk this"
  shows "countsOk (tracked nm ov nv property newProp this)"
proof -
  define this1 where "this1 = (if newProp then push (bpOf nm this) property this else this)"
  obtain vals this2 where g: "getValues (propOf nm) (aliasOf nm) this1 = (vals, this2)"
    by (cases "getValues (propOf nm) (aliasOf nm) this1")
  have "countsOk this1"
    using assms by (simp add: this1_def countsOk_def)
  from countsOk_getValues[OF this g] have "mapOk vals" and "countsOk this2"
    by simp_all
  then have "countsOk (setValues (valuesKey (propOf nm) (aliasOf nm)) (updateCounts ov nv vals) this2)"
    by (intro countsOk_setValues mapOk_updateCounts)
  with g show ?thesis
    by (simp add: tracked_def this1_def)
qed

lemma countsOk_attributeChangedCallback:
  assumes "countsOk this"
  shows "countsOk (snd (attributeChangedCallback h nm ov nv this))"
proof (cases "getPropertyByName (deref (bpOf nm this) this) (propOf nm) this")
  case (Inl e)
  with assms show ?thesis
    by (simp add: attributeChangedCallback_unfold)
next
  case (Inr r)
  obtain property newProp where r: "r = (property, newProp)" by (cases r)
  define this3 where "this3 = tracked nm ov nv property newProp this"
  have ok3: "countsOk this3"
    unfolding this3_def using assms by (rule countsOk_tracked)
  have "countsOk (snd (rebuild h (aliasOf nm \<noteq> []) (deref (bpOf nm this) this3) this3))"
    unfolding rebuild_def using ok3 by (rule countsOk_buildCss)
  then show ?thesis
    using Inr r
    by (auto simp: attributeChangedCallback_unfold this3_def Let_def countsOk_def
        split: sum.splits prod.splits)
qed

text \<open>
  Claim C2. After any sequence of calls of \<open>attributeChangedCallback\<close> on a
  constructed element, whatever the old values say (tracked or not), every value map of
  the tracker has distinct keys and every count stored in it is at least 1: no entry
  with count 0 stays and no count is negative.
\<close>

theorem tracker_counts_at_least_one:
  "countsOk (deliverAll cs (constructor getBps layoutType props))"
proof -
  have "countsOk this \<Longrightarrow> countsOk (deliverAll cs this)" for this
  proof (induction cs arbitrary: this)
    case Nil
    then show ?case by simp
  next
    case (Cons c cs)
    from Cons.prems have "countsOk (snd (deliver c this))"
      unfolding deliver_def by (rule countsOk_attributeChangedCallback)
    then show ?case
      by (simp add: Cons.IH)
  qed
  moreover have "countsOk (constructor getBps layoutType props)"
    by (simp add: countsOk_def constructor_def)
  ultimately show ?thesis .
qed

subsection \<open>What the synthesis reads\<close>

lemma fst_getValues: "fst (getValues p al this) = valuesOf this (valuesKey p al)"
  by (simp add: getValues_def valuesOf_def split: option.splits)

lemma valuesOf_touched: "valuesOf (touched p al this) = valuesOf this"
  by (rule ext)
     (simp add: touched_def getValues_def valuesOf_def update_conv' Let_def split: option.splits)

lemma getValues_eq:
  "getValues p al this = (valuesOf this (valuesKey p al), touched p al this)"
  by (simp add: fst_getValues[symmetric] touched_def)

lemma parentLoop_cong:
  assumes "\<forall>p \<in> set ps. firstKey (valuesOf a (valuesKey (name p) al))
                        = firstKey (valuesOf b (valuesKey (name p) al))"
  shows "fst (parentLoop al ps bk a) = fst (parentLoop al ps bk b)"
  using assms
proof (induction ps arbitrary: bk a b)
  case Nil
  then show ?case by simp
next
  case (Cons p ps)
  obtain host allChild where bk: "bk = (host, allChild)" by (cases bk)
  let ?a' = "touched (name p) al a" and ?b' = "touched (name p) al b"
  have eq: "firstKey (valuesOf a (valuesKey (name p) al))
          = firstKey (valuesOf b (valuesKey (name p) al))"
    using Cons.prems by simp
  have rest: "\<forall>q \<in> set ps. firstKey (valuesOf ?a' (valuesKey (name q) al))
                        = firstKey (valuesOf ?b' (valuesKey (name q) al))"
    using Cons.prems by (simp add: valuesOf_touched)
  note ih = Cons.IH[OF rest]
  show ?case
  proof (cases "valuesOf a (valuesKey (name p) al)")
    case Nil
    with eq have "valuesOf b (valuesKey (name p) al) = []"
      by (auto simp: firstKey_def split: list.splits)
    with Nil ih show ?thesis
      unfolding bk by (simp add: getValues_eq)
  next
    case (Cons vn rest)
    obtain v n where vn: "vn = (v, n)" by (cases vn)
    with eq Cons obtain n' rest' where b: "valuesOf b (valuesKey (name p) al) = (v, n') # rest'"
      by (auto simp: firstKey_def split: list.splits)
    show ?thesis
      unfolding bk using Cons vn b ih
      by (simp add: getValues_eq split: prod.splits option.splits)
  qed
qed

lemma valuesOf_parentLoop: "valuesOf (snd (parentLoop al ps bk this)) = valuesOf this"
proof (induction al ps bk this rule: parentLoop.induct)
  case (1 al buckets this)
  then show ?case by simp
next
  case (2 al parentProp ps host allChild this)
  show ?case
    using 2
    by (auto simp: getValues_eq valuesOf_touched split: list.splits prod.splits option.splits)
qed

lemma childLoop_cong:
  assumes "\<forall>p \<in> set ps. map fst (valuesOf a (valuesKey (name p) al))
                        = map fst (valuesOf b (valuesKey (name p) al))"
  shows "fst (childLoop al ps css a) = fst (childLoop al ps css b)"
  using assms
proof (induction ps arbitrary: css a b)
  case Nil
  then show ?case by simp
next
  case (Cons p ps)
  let ?a' = "touched (name p) al a" and ?b' = "touched (name p) al b"
  have rest: "\<forall>q \<in> set ps. map fst (valuesOf ?a' (valuesKey (name q) al))
                        = map fst (valuesOf ?b' (valuesKey (name q) al))"
    using Cons.prems by (simp add: valuesOf_touched)
  from Cons.IH[OF rest] Cons.prems show ?case
    by (simp add: getValues_eq)
qed

lemma valuesOf_childLoop: "valuesOf (snd (childLoop al ps css this)) = valuesOf this"
proof (induction al ps css this rule: childLoop.induct)
  case (1 al css this)
  then show ?case by simp
next
  case (2 al childProp ps css this)
  then show ?case
    by (simp add: getValues_eq valuesOf_touched)
qed

lemma filterChild_Inr:
  "filterChild c props = Inr ps \<Longrightarrow>
   None \<notin> set props \<and> ps = filter (\<lambda>p. child p = c) (map the props)"
proof (induction c props arbitrary: ps rule: filterChild.induct)
  case (1 c)
  then show ?case by simp
next
  case (2 c ps')
  then show ?case by simp
next
  case (3 c p ps')
  from "3.prems" obtain r where r: "filterChild c ps' = Inr r"
    and ps: "ps = (if child p = c then p # r else r)"
    by (cases "filterChild c ps'") auto
  from "3.IH"[OF r] ps show ?case by simp
qed

lemma filterChild_Inl:
  "filterChild c props = Inl e \<Longrightarrow> None \<in> set props"
proof (induction c props rule: filterChild.induct)
  case (3 c p ps')
  then show ?case by (cases "filterChild c ps'") auto
qed simp_all

lemma set_filterChild:
  assumes "filterChild c props = Inr ps"
  shows "set ps = {p. Some p \<in> set props \<and> child p = c}"
proof -
  from filterChild_Inr[OF assms] have n: "None \<notin> set props"
    and ps: "ps = filter (\<lambda>p. child p = c) (map the props)" by simp_all
  have "Some p \<in> set props \<longleftrightarrow> p \<in> the ` set props" for p
  proof
    assume "p \<in> the ` set props"
    then obtain x where x: "x \<in> set props" "p = the x" by blast
    with n have "x \<noteq> None" by metis
    with x show "Some p \<in> set props" by auto
  qed force
  with ps show ?thesis by auto
qed

lemma buildCss_unfold:
  "buildCss al props inl lt ad this =
     (case filterChild False props of
        Inl e \<Rightarrow> (Inl e, this)
      | Inr parentProps \<Rightarrow>
     (case filterChild True props of
        Inl e \<Rightarrow> (Inl e, this)
      | Inr childProps \<Rightarrow>
     (let this1 = snd (parentLoop al parentProps ([], []) this) in
      case fst (parentLoop al parentProps ([], []) this) of
        Inl e \<Rightarrow> (Inl e, this1)
      | Inr (host, allChild) \<Rightarrow>
          (addDisplay inl lt ad
             (fst (childLoop al childProps [(parentKey, host), (allChildKey, allChild)] this1)),
           snd (childLoop al childProps [(parentKey, host), (allChildKey, allChild)] this1)))))"
  by (simp add: buildCss_def Let_def split: sum.splits prod.splits)

lemma buildCss_cong:
  assumes "\<forall>p. Some p \<in> set props \<longrightarrow>
             valuesOf a (valuesKey (name p) al) = valuesOf b (valuesKey (name p) al)"
  shows "fst (buildCss al props inl lt ad a) = fst (buildCss al props inl lt ad b)"
proof (cases "filterChild False props")
  case (Inl e)
  then show ?thesis by (simp add: buildCss_def)
next
  case pp: (Inr parentProps)
  show ?thesis
  proof (cases "filterChild True props")
    case (Inl e)
    with pp show ?thesis by (simp add: buildCss_def)
  next
    case cp: (Inr childProps)
    have p: "fst (parentLoop al parentProps ([], []) a) = fst (parentLoop al parentProps ([], []) b)"
      using assms set_filterChild[OF pp] by (intro parentLoop_cong) simp
    have c: "fst (childLoop al childProps css (snd (parentLoop al parentProps ([], []) a)))
           = fst (childLoop al childProps css (snd (parentLoop al parentProps ([], []) b)))" for css
      using assms set_filterChild[OF cp] by (intro childLoop_cong) (simp add: valuesOf_parentLoop)
    show ?thesis
      using pp cp p c
      by (simp add: buildCss_unfold Let_def split: sum.splits prod.splits)
  qed
qed

lemma valuesOf_buildCss: "valuesOf (snd (buildCss al props inl lt ad this)) = valuesOf this"
  by (simp add: buildCss_unfold Let_def valuesOf_parentLoop valuesOf_childLoop
      split: sum.splits prod.splits)

lemma childKeyOf_neq_parentKey [simp]: "childKeyOf n al k \<noteq> parentKey"
  by (simp add: childKeyOf_def wrapChildKey_def parentKey_def)

lemma childKeyOf_neq_allChildKey [simp]: "childKeyOf n al k \<noteq> allChildKey"
  by (simp add: childKeyOf_def wrapChildKey_def parentKey_def allChildKey_def)

lemma map_of_keysLoop_other:
  "\<forall>k \<in> set keys. childKeyOf (name p) al k \<noteq> sel \<Longrightarrow>
   map_of (keysLoop p al keys css) sel = map_of css sel"
  by (induction keys arbitrary: css) (auto simp: update_conv')

lemma map_of_childLoop_other:
  "\<forall>p \<in> set ps. \<forall>k. childKeyOf (name p) al k \<noteq> sel \<Longrightarrow>
   map_of (fst (childLoop al ps css this)) sel = map_of css sel"
  by (induction ps arbitrary: css this) (simp_all add: getValues_eq map_of_keysLoop_other)

lemma map_of_childLoop_parentKey:
  "map_of (fst (childLoop al ps css this)) parentKey = map_of css parentKey"
  by (rule map_of_childLoop_other) simp

lemma map_of_childLoop_allChildKey:
  "map_of (fst (childLoop al ps css this)) allChildKey = map_of css allChildKey"
  by (rule map_of_childLoop_other) simp

lemma parentKey_neq_allChildKey [simp]: "parentKey \<noteq> allChildKey" "allChildKey \<noteq> parentKey"
  by (simp_all add: parentKey_def allChildKey_def)

text \<open>
  Claim C3. Whenever \<open>buildCss\<close> returns a CSS object, the \<open>:host\<close> bucket of the
  object holds a \<open>display\<close> declaration if and only if the host bucket was non-empty
  after the loop over the host-scoped properties or \<open>applyDefaults\<close> is true; when it
  is there, its value is \<open>inline-<layoutType>\<close> if the inline flag is set and
  \<open><layoutType>\<close> otherwise.
\<close>

theorem display_injection_rule:
  assumes "buildCss al props inline layoutType applyDefaults this = (Inr css, this')"
  shows "\<exists>host bucket.
           hostAfterParentLoop al props this = Some host \<and>
           map_of css parentKey = Some bucket \<and>
           ((''display'' \<in> fst ` set bucket) = (host \<noteq> [] \<or> applyDefaults)) \<and>
           (''display'' \<in> fst ` set bucket \<longrightarrow>
              map_of bucket ''display'' =
                Some (if inline then ''inline-'' @ layoutType else layoutType))"
proof -
  from assms obtain parentProps childProps host allChild where
    pp: "filterChild False props = Inr parentProps" and
    cp: "filterChild True props = Inr childProps" and
    pl: "fst (parentLoop al parentProps ([], []) this) = Inr (host, allChild)" and
    css: "addDisplay inline layoutType applyDefaults
            (fst (childLoop al childProps [(parentKey, host), (allChildKey, allChild)]
               (snd (parentLoop al parentProps ([], []) this)))) = Inr css"
    by (auto simp: buildCss_unfold Let_def split: sum.splits prod.splits)
  let ?css0 = "fst (childLoop al childProps [(parentKey, host), (allChildKey, allChild)]
               (snd (parentLoop al parentProps ([], []) this)))"
  have h: "map_of ?css0 parentKey = Some host"
    by (simp add: map_of_childLoop_parentKey)
  have 1: "hostAfterParentLoop al props this = Some host"
    using pp pl by (simp add: hostAfterParentLoop_def)
  show ?thesis
  proof (cases "host \<noteq> [] \<or> applyDefaults")
    case True
    with css h have "map_of css parentKey = Some (AList.update ''display''
        (if inline then ''inline-'' @ layoutType else layoutType) host)"
      by (auto simp: addDisplay_def update_conv')
    with 1 True show ?thesis
      by (auto simp: dom_update update_conv')
  next
    case False
    with css h have "map_of css parentKey = Some host" and "host = []"
      by (auto simp: addDisplay_def)
    with 1 False show ?thesis by simp
  qed
qed

lemma firstKey_update:
  "m \<noteq> [] \<Longrightarrow> firstKey (AList.update k v m) = firstKey m"
  by (cases m) (auto simp: firstKey_def)

lemma parentLoop_firstValueMerge:
  "fst (parentLoop al ps bk this) = firstValueMerge al ps (firstValueOf this al) bk"
proof (induction ps arbitrary: bk this)
  case Nil
  then show ?case by simp
next
  case (Cons p ps)
  obtain host allChild where bk: "bk = (host, allChild)" by (cases bk)
  have same: "firstValueOf (touched (name p) al this) al = firstValueOf this al"
    by (rule ext) (simp add: firstValueOf_def valuesOf_touched)
  show ?case
  proof (cases "valuesOf this (valuesKey (name p) al)")
    case Nil
    then show ?thesis
      unfolding bk using Cons.IH[of "(host, allChild)" "touched (name p) al this"]
      by (simp add: getValues_eq same firstValueOf_def firstKey_def)
  next
    case (Cons vn rest)
    obtain v n where vn: "vn = (v, n)" by (cases vn)
    have fv: "firstValueOf this al p = Some v"
      using Cons vn by (simp add: firstValueOf_def firstKey_def)
    show ?thesis
      unfolding bk using Cons vn fv Cons.IH[of _ "touched (name p) al this"]
      by (simp add: getValues_eq same split: prod.splits option.splits)
  qed
qed

lemma filterChild_both:
  "filterChild c props = Inr ps \<Longrightarrow> \<exists>r. filterChild c' props = Inr r"
proof -
  assume a: "filterChild c props = Inr ps"
  from filterChild_Inr[OF a] have n: "None \<notin> set props" by simp
  show ?thesis
  proof (cases "filterChild c' props")
    case (Inl e)
    from filterChild_Inl[OF this] n show ?thesis by simp
  next
    case (Inr r)
    then show ?thesis by simp
  qed
qed

lemma hostRules_buildCss:
  "hostRules (fst (buildCss al props inl lt ad this))
     = firstValueRules al props inl lt ad (firstValueOf this al)"
proof (cases "filterChild False props")
  case (Inl e)
  then show ?thesis by (simp add: buildCss_def firstValueRules_def hostRules_def)
next
  case pp: (Inr parentProps)
  from filterChild_both[OF pp, of True] obtain childProps where
    cp: "filterChild True props = Inr childProps" by blast
  show ?thesis
  proof (cases "firstValueMerge al parentProps (firstValueOf this al) ([], [])")
    case (Inl e)
    with pp cp show ?thesis
      by (simp add: buildCss_unfold Let_def firstValueRules_def hostRules_def
          parentLoop_firstValueMerge)
  next
    case (Inr buckets)
    obtain host allChild where "buckets = (host, allChild)" by (cases buckets)
    with Inr pp cp show ?thesis
      by (simp add: buildCss_unfold Let_def firstValueRules_def hostRules_def
          parentLoop_firstValueMerge addDisplay_def map_of_childLoop_parentKey
          map_of_childLoop_allChildKey update_conv')
  qed
qed

lemma map_of_assign:
  "map_of (assign f b) k = (case map_of (rev f) k of None \<Rightarrow> map_of b k | Some d \<Rightarrow> Some d)"
  by (induction f arbitrary: b)
     (auto simp: update_conv' map_add_def split: option.splits)

lemma map_of_assign_other:
  "k \<notin> fst ` set f \<Longrightarrow> map_of (assign f b) k = map_of b k"
proof -
  assume "k \<notin> fst ` set f"
  then have "map_of (rev f) k = None"
    by (simp add: map_of_eq_None_iff)
  then show ?thesis by (simp add: map_of_assign)
qed

lemma map_of_assign_key:
  "k \<in> fst ` set f \<Longrightarrow> map_of (assign f b) k = map_of (assign f []) k"
proof -
  assume "k \<in> fst ` set f"
  then have "map_of (rev f) k \<noteq> None"
    by (simp add: map_of_eq_None_iff)
  then show ?thesis by (auto simp: map_of_assign)
qed

lemma firstValueMerge_other:
  assumes "firstValueMerge al ps first (host, allChild) = Inr (host', allChild')"
  shows "(\<forall>q \<in> set ps. \<forall>w. first q = Some w \<longrightarrow> k \<notin> fst ` set (fst (updateFn q w al)))
           \<longrightarrow> map_of host' k = map_of host k"
    and "(\<forall>q \<in> set ps. \<forall>w c. first q = Some w \<and> snd (updateFn q w al) = Some c
            \<longrightarrow> k \<notin> fst ` set c)
           \<longrightarrow> map_of allChild' k = map_of allChild k"
  using assms
proof (induction ps arbitrary: host allChild)
  case Nil
  { case 1 then show ?case by simp }
  { case 2 then show ?case by simp }
next
  case (Cons q ps)
  { case 1
    show ?case
    proof (cases "first q")
      case None
      with 1 Cons.IH(1)[of host allChild] show ?thesis by simp
    next
      case (Some w)
      obtain h c where u: "updateFn q w al = (h, c)" by (cases "updateFn q w al")
      with 1 Some obtain cc where c: "c = Some cc" by (cases c) auto
      with 1 Some u Cons.IH(1)[of "assign h host" "assign cc allChild"] show ?thesis
        by (auto simp: map_of_assign_other)
    qed }
  { case 2
    show ?case
    proof (cases "first q")
      case None
      with 2 Cons.IH(2)[of host allChild] show ?thesis by simp
    next
      case (Some w)
      obtain h c where u: "updateFn q w al = (h, c)" by (cases "updateFn q w al")
      with 2 Some obtain cc where c: "c = Some cc" by (cases c) auto
      with 2 Some u Cons.IH(2)[of "assign h host" "assign cc allChild"] show ?thesis
        by (auto simp: map_of_assign_other)
    qed }
qed


lemma firstValueMerge_reach:
  assumes "firstValueMerge al ps first (host, allChild) = Inr (host', allChild')"
    and "p \<in> set ps" and "first p = Some v" and "updateFn p v al = (hostCss, Some childCss)"
  shows "k \<in> fst ` set hostCss \<and>
         (\<forall>q \<in> set ps. \<forall>w. q \<noteq> p \<and> first q = Some w
            \<longrightarrow> k \<notin> fst ` set (fst (updateFn q w al)))
           \<longrightarrow> map_of host' k = map_of (assign hostCss []) k"
    and "k \<in> fst ` set childCss \<and>
         (\<forall>q \<in> set ps. \<forall>w c. q \<noteq> p \<and> first q = Some w \<and> snd (updateFn q w al) = Some c
            \<longrightarrow> k \<notin> fst ` set c)
           \<longrightarrow> map_of allChild' k = map_of (assign childCss []) k"
  using assms(1,2)
proof (induction ps arbitrary: host allChild)
  case Nil
  { case 1 then show ?case by simp }
  { case 2 then show ?case by simp }
next
  case (Cons q ps)
  { case 1
    show ?case
    proof (cases "q = p")
      case True
      from 1(1) True assms(3,4) have m:
        "firstValueMerge al ps first (assign hostCss host, assign childCss allChild)
           = Inr (host', allChild')"
        by simp
      show ?thesis
      proof (cases "p \<in> set ps")
        case True
        from Cons.IH(1)[OF m True] show ?thesis by auto
      next
        case False
        show ?thesis
        proof (intro impI, elim conjE)
          assume k: "k \<in> fst ` set hostCss"
            and oth: "\<forall>q \<in> set (q # ps). \<forall>w. q \<noteq> p \<and> first q = Some w
                      \<longrightarrow> k \<notin> fst ` set (fst (updateFn q w al))"
          from oth False have "\<forall>q \<in> set ps. \<forall>w. first q = Some w
                      \<longrightarrow> k \<notin> fst ` set (fst (updateFn q w al))"
            by (metis list.set_intros(2))
          with firstValueMerge_other(1)[OF m, of k]
          have "map_of host' k = map_of (assign hostCss host) k" by simp
          with map_of_assign_key[OF k] show "map_of host' k = map_of (assign hostCss []) k"
            by simp
        qed
      qed
    next
      case False
      with 1(2) have p: "p \<in> set ps" by simp
      show ?thesis
      proof (cases "first q")
        case None
        with 1(1) have "firstValueMerge al ps first (host, allChild) = Inr (host', allChild')"
          by simp
        from Cons.IH(1)[OF this p] show ?thesis by auto
      next
        case (Some w)
        obtain h c where u: "updateFn q w al = (h, c)" by (cases "updateFn q w al")
        with 1(1) Some obtain cc where c: "c = Some cc" by (cases c) auto
        with 1(1) Some u have
          "firstValueMerge al ps first (assign h host, assign cc allChild) = Inr (host', allChild')"
          by simp
        from Cons.IH(1)[OF this p] False Some u show ?thesis by auto
      qed
    qed }
  { case 2
    show ?case
    proof (cases "q = p")
      case True
      from 2(1) True assms(3,4) have m:
        "firstValueMerge al ps first (assign hostCss host, assign childCss allChild)
           = Inr (host', allChild')"
        by simp
      show ?thesis
      proof (cases "p \<in> set ps")
        case True
        from Cons.IH(2)[OF m True] show ?thesis by auto
      next
        case False
        show ?thesis
        proof (intro impI, elim conjE)
          assume k: "k \<in> fst ` set childCss"
            and oth: "\<forall>q \<in> set (q # ps). \<forall>w c. q \<noteq> p \<and> first q = Some w
                      \<and> snd (updateFn q w al) = Some c \<longrightarrow> k \<notin> fst ` set c"
          from oth False have "\<forall>q \<in> set ps. \<forall>w c. first q = Some w
                      \<and> snd (updateFn q w al) = Some c \<longrightarrow> k \<notin> fst ` set c"
            by (metis list.set_intros(2))
          with firstValueMerge_other(2)[OF m, of k]
          have "map_of allChild' k = map_of (assign childCss allChild) k" by simp
          with map_of_assign_key[OF k] show "map_of allChild' k = map_of (assign childCss []) k"
            by simp
        qed
      qed
    next
      case False
      with 2(2) have p: "p \<in> set ps" by simp
      show ?thesis
      proof (cases "first q")
        case None
        with 2(1) have "firstValueMerge al ps first (host, allChild) = Inr (host', allChild')"
          by simp
        from Cons.IH(2)[OF this p] show ?thesis by auto
      next
        case (Some w)
        obtain h c where u: "updateFn q w al = (h, c)" by (cases "updateFn q w al")
        with 2(1) Some obtain cc where c: "c = Some cc" by (cases c) auto
        with 2(1) Some u have
          "firstValueMerge al ps first (assign h host, assign cc allChild) = Inr (host', allChild')"
          by simp
        from Cons.IH(2)[OF this p] False Some u show ?thesis by auto
      qed
    qed }
qed

lemma firstKey_delete:
  "firstKey m = Some v \<Longrightarrow> k \<noteq> v \<Longrightarrow> firstKey (AList.delete k m) = Some v"
  by (cases m) (auto simp: firstKey_def)

lemma firstKey_updateCounts:
  assumes "firstKey m = Some v"
  shows "firstKey (updateCounts ov nv m) = Some v
         \<or> (ov = Some v \<and> v \<notin> fst ` set (updateCounts ov nv m))"
proof -
  from assms have ne: "m \<noteq> []" by (auto simp: firstKey_def)
  define m1 where "m1 = (case ov of None \<Rightarrow> m
     | Some u \<Rightarrow> (case map_of m u of None \<Rightarrow> m | Some n \<Rightarrow> AList.update u (n - 1) m))"
  define m2 where "m2 = (case nv of None \<Rightarrow> m1
     | Some x \<Rightarrow> AList.update x
         ((case map_of m1 x of None \<Rightarrow> 0 | Some n \<Rightarrow> (if n = 0 then 0 else n)) + 1) m1)"
  have r: "updateCounts ov nv m = (case ov of None \<Rightarrow> m2
     | Some u \<Rightarrow> (if map_of m2 u = Some 0 then AList.delete u m2 else m2))"
    unfolding updateCounts_def m1_def m2_def Let_def by (simp split: option.splits)
  have 1: "firstKey m1 = Some v \<and> m1 \<noteq> []"
    using assms ne by (auto simp: m1_def firstKey_update split: option.splits)
  then have 2: "firstKey m2 = Some v"
    by (auto simp: m2_def firstKey_update split: option.splits)
  show ?thesis
  proof (cases ov)
    case None
    with r 2 show ?thesis by simp
  next
    case (Some u)
    show ?thesis
    proof (cases "map_of m2 u = Some 0")
      case False
      with r Some 2 show ?thesis by simp
    next
      case True
      show ?thesis
      proof (cases "u = v")
        case True
        with r Some \<open>map_of m2 u = Some 0\<close> show ?thesis
          by (simp add: delete_notin_dom)
      next
        case False
        with r Some True 2 show ?thesis
          by (simp add: firstKey_delete)
      qed
    qed
  qed
qed

text \<open>
  Claim C7. For every host-scoped property whose map is non-empty, \<open>buildCss\<close> uses the
  value at position 0 of the map, invokes the update function on it, and ignores every
  other tracked value. First, the \<open>:host\<close> and \<open>:host>*\<close> buckets of the result (or the
  error) are those of \<open>firstValueRules\<close>, which is given nothing of the tracker but the
  first value of each property and merges the fragments of the update function on that
  value. Second, when \<open>buildCss\<close> returns and the map of a host-scoped property \<open>p\<close> of
  the list starts with \<open>v\<close>, every declaration of the host fragment of
  \<open>updateFn p v al\<close> is in the \<open>:host\<close> bucket and every declaration of its child
  fragment is in the \<open>:host>*\<close> bucket, unless another host-scoped property of the list
  writes the same key for its own first value, or the key is \<open>display\<close>, which lines
  192-195 may overwrite. Third, two states that agree on the first values give the same
  buckets, whatever else the maps hold. Fourth, a change of the counts keeps the first
  key of a map first as long as that key is not deleted: a value that is set later never
  takes its place.
\<close>

theorem host_tie_break:
  "hostRules (fst (buildCss al props inline layoutType applyDefaults this))
     = firstValueRules al props inline layoutType applyDefaults (firstValueOf this al)
   \<and> (fst (buildCss al props inline layoutType applyDefaults this) = Inr css
        \<and> Some p \<in> set props \<and> \<not> child p
        \<and> valuesOf this (valuesKey (name p) al) = (v, n) # rest
        \<and> updateFn p v al = (hostCss, Some childCss)
      \<longrightarrow> (\<exists>host allChild.
             map_of css parentKey = Some host \<and> map_of css allChildKey = Some allChild
             \<and> (\<forall>k \<in> fst ` set hostCss.
                   k \<noteq> ''display''
                   \<and> (\<forall>q w. Some q \<in> set props \<and> \<not> child q \<and> q \<noteq> p
                              \<and> firstValueOf this al q = Some w
                          \<longrightarrow> k \<notin> fst ` set (fst (updateFn q w al)))
                   \<longrightarrow> map_of host k = map_of (assign hostCss []) k)
             \<and> (\<forall>k \<in> fst ` set childCss.
                   (\<forall>q w c. Some q \<in> set props \<and> \<not> child q \<and> q \<noteq> p
                              \<and> firstValueOf this al q = Some w
                              \<and> snd (updateFn q w al) = Some c
                          \<longrightarrow> k \<notin> fst ` set c)
                   \<longrightarrow> map_of allChild k = map_of (assign childCss []) k)))
   \<and> ((\<forall>q. Some q \<in> set props \<and> \<not> child q \<longrightarrow> firstValueOf a al q = firstValueOf b al q)
      \<longrightarrow> hostRules (fst (buildCss al props inline layoutType applyDefaults a))
            = hostRules (fst (buildCss al props inline layoutType applyDefaults b)))
   \<and> (firstKey m = Some v'
      \<longrightarrow> firstKey (updateCounts ov nv m) = Some v'
          \<or> (ov = Some v' \<and> v' \<notin> fst ` set (updateCounts ov nv m)))"
proof (intro conjI impI)
  show "hostRules (fst (buildCss al props inline layoutType applyDefaults this))
     = firstValueRules al props inline layoutType applyDefaults (firstValueOf this al)"
    by (rule hostRules_buildCss)
next
  assume "firstKey m = Some v'"
  then show "firstKey (updateCounts ov nv m) = Some v'
          \<or> (ov = Some v' \<and> v' \<notin> fst ` set (updateCounts ov nv m))"
    by (rule firstKey_updateCounts)
next
  assume eq: "\<forall>q. Some q \<in> set props \<and> \<not> child q \<longrightarrow> firstValueOf a al q = firstValueOf b al q"
  have "firstValueRules al props inline layoutType applyDefaults (firstValueOf a al)
      = firstValueRules al props inline layoutType applyDefaults (firstValueOf b al)"
  proof (cases "filterChild False props")
    case (Inl e)
    then show ?thesis by (simp add: firstValueRules_def)
  next
    case (Inr hostProps)
    have "\<forall>q \<in> set hostProps. firstKey (valuesOf a (valuesKey (name q) al))
                             = firstKey (valuesOf b (valuesKey (name q) al))"
      using eq set_filterChild[OF Inr] by (simp add: firstValueOf_def)
    from parentLoop_cong[OF this, of "([], [])"] Inr show ?thesis
      by (simp add: firstValueRules_def parentLoop_firstValueMerge)
  qed
  then show "hostRules (fst (buildCss al props inline layoutType applyDefaults a))
            = hostRules (fst (buildCss al props inline layoutType applyDefaults b))"
    by (simp add: hostRules_buildCss)
next
  assume as: "fst (buildCss al props inline layoutType applyDefaults this) = Inr css
        \<and> Some p \<in> set props \<and> \<not> child p
        \<and> valuesOf this (valuesKey (name p) al) = (v, n) # rest
        \<and> updateFn p v al = (hostCss, Some childCss)"
  then have fv: "firstValueOf this al p = Some v"
    by (simp add: firstValueOf_def firstKey_def)
  from as have rules: "firstValueRules al props inline layoutType applyDefaults (firstValueOf this al)
      = Inr (map_of css parentKey, map_of css allChildKey)"
    using hostRules_buildCss[of al props inline layoutType applyDefaults this]
    by (simp add: hostRules_def)
  then obtain hostProps where hp: "filterChild False props = Inr hostProps"
    by (cases "filterChild False props") (auto simp: firstValueRules_def)
  with rules obtain host0 allChild where
    m: "firstValueMerge al hostProps (firstValueOf this al) ([], []) = Inr (host0, allChild)"
    and h: "map_of css parentKey = Some (if host0 \<noteq> [] \<or> applyDefaults
                          then AList.update ''display''
                                 (if inline then ''inline-'' @ layoutType else layoutType) host0
                          else host0)"
    and c: "map_of css allChildKey = Some allChild"
    by (cases "firstValueMerge al hostProps (firstValueOf this al) ([], [])")
       (auto simp: firstValueRules_def)
  from as set_filterChild[OF hp] have pin: "p \<in> set hostProps" by simp
  from as have u: "updateFn p v al = (hostCss, Some childCss)" by simp
  note reach = firstValueMerge_reach[OF m pin fv u]
  let ?host = "if host0 \<noteq> [] \<or> applyDefaults
                          then AList.update ''display''
                                 (if inline then ''inline-'' @ layoutType else layoutType) host0
                          else host0"
  have hk: "k \<noteq> ''display'' \<Longrightarrow> map_of ?host k = map_of host0 k" for k
    by (simp add: update_conv')
  have "\<forall>k \<in> fst ` set hostCss.
                   k \<noteq> ''display''
                   \<and> (\<forall>q w. Some q \<in> set props \<and> \<not> child q \<and> q \<noteq> p
                              \<and> firstValueOf this al q = Some w
                          \<longrightarrow> k \<notin> fst ` set (fst (updateFn q w al)))
                   \<longrightarrow> map_of ?host k = map_of (assign hostCss []) k"
  proof (intro ballI impI)
    fix k
    assume k: "k \<in> fst ` set hostCss"
      and oth: "k \<noteq> ''display''
                   \<and> (\<forall>q w. Some q \<in> set props \<and> \<not> child q \<and> q \<noteq> p
                              \<and> firstValueOf this al q = Some w
                          \<longrightarrow> k \<notin> fst ` set (fst (updateFn q w al)))"
    then have "\<forall>q \<in> set hostProps. \<forall>w. q \<noteq> p \<and> firstValueOf this al q = Some w
            \<longrightarrow> k \<notin> fst ` set (fst (updateFn q w al))"
      using set_filterChild[OF hp] by blast
    with reach(1)[of k] k have "map_of host0 k = map_of (assign hostCss []) k" by simp
    with oth hk[of k] show "map_of ?host k = map_of (assign hostCss []) k"
      by simp
  qed
  moreover have "\<forall>k \<in> fst ` set childCss.
                   (\<forall>q w c. Some q \<in> set props \<and> \<not> child q \<and> q \<noteq> p
                              \<and> firstValueOf this al q = Some w
                              \<and> snd (updateFn q w al) = Some c
                          \<longrightarrow> k \<notin> fst ` set c)
                   \<longrightarrow> map_of allChild k = map_of (assign childCss []) k"
  proof (intro ballI impI)
    fix k
    assume k: "k \<in> fst ` set childCss"
      and oth: "\<forall>q w c. Some q \<in> set props \<and> \<not> child q \<and> q \<noteq> p
                              \<and> firstValueOf this al q = Some w
                              \<and> snd (updateFn q w al) = Some c
                          \<longrightarrow> k \<notin> fst ` set c"
    then have "\<forall>q \<in> set hostProps. \<forall>w c. q \<noteq> p \<and> firstValueOf this al q = Some w
               \<and> snd (updateFn q w al) = Some c \<longrightarrow> k \<notin> fst ` set c"
      using set_filterChild[OF hp] by blast
    with reach(2)[of k] k show "map_of allChild k = map_of (assign childCss []) k" by simp
  qed
  ultimately show "\<exists>host allChild.
             map_of css parentKey = Some host \<and> map_of css allChildKey = Some allChild
             \<and> (\<forall>k \<in> fst ` set hostCss.
                   k \<noteq> ''display''
                   \<and> (\<forall>q w. Some q \<in> set props \<and> \<not> child q \<and> q \<noteq> p
                              \<and> firstValueOf this al q = Some w
                          \<longrightarrow> k \<notin> fst ` set (fst (updateFn q w al)))
                   \<longrightarrow> map_of host k = map_of (assign hostCss []) k)
             \<and> (\<forall>k \<in> fst ` set childCss.
                   (\<forall>q w c. Some q \<in> set props \<and> \<not> child q \<and> q \<noteq> p
                              \<and> firstValueOf this al q = Some w
                              \<and> snd (updateFn q w al) = Some c
                          \<longrightarrow> k \<notin> fst ` set c)
                   \<longrightarrow> map_of allChild k = map_of (assign childCss []) k)"
    using h c by blast
qed

lemma fst_synthesize:
  "fst (synthesize al props inl lt ad this) =
     (case fst (buildCss al props inl lt ad this) of
        Inl e \<Rightarrow> Inl e
      | Inr css \<Rightarrow> Inr (toString (unwrapCss (objectCss css))))"
  by (simp add: synthesize_def split: prod.splits sum.splits)

lemma snd_synthesize:
  "snd (synthesize al props inl lt ad this) = snd (buildCss al props inl lt ad this)"
  by (simp add: synthesize_def split: prod.splits sum.splits)

text \<open>
  Claim C9. The update functions being functions of the value and the alias, a second
  synthesis (\<open>buildCss\<close>, then the serialisation) with the same arguments, run on the
  state the first one has left, yields the same text, or the same error.
\<close>

theorem resynthesis_idempotent:
  "fst (synthesize al props inline layoutType applyDefaults
          (snd (synthesize al props inline layoutType applyDefaults this)))
     = fst (synthesize al props inline layoutType applyDefaults this)"
proof -
  have "fst (buildCss al props inline layoutType applyDefaults
          (snd (buildCss al props inline layoutType applyDefaults this)))
      = fst (buildCss al props inline layoutType applyDefaults this)"
    by (rule buildCss_cong) (simp add: valuesOf_buildCss)
  then show ?thesis
    by (simp add: fst_synthesize snd_synthesize)
qed

subsection \<open>Unknown property names\<close>

lemma findIndex_Some: "findIndex P xs = Some i \<Longrightarrow> i < length xs \<and> P (xs ! i)"
  by (induction xs arbitrary: i) (auto split: if_splits)

lemma findIndex_None: "findIndex P xs = None \<Longrightarrow> \<forall>x \<in> set xs. \<not> P x"
  by (induction xs) (auto split: if_splits)

lemma findIndexByName_Some:
  "findIndexByName pr ps = Inr (Some i) \<Longrightarrow>
   i < length ps \<and> (\<exists>p. ps ! i = Some p \<and> name p = pr)"
proof (induction pr ps arbitrary: i rule: findIndexByName.induct)
  case (3 pr p ps)
  show ?case
  proof (cases "name p = pr")
    case True
    with "3.prems" show ?thesis by simp
  next
    case False
    with "3.prems" obtain j where "findIndexByName pr ps = Inr (Some j)" and "i = Suc j"
      by (auto split: sum.splits)
    with "3.IH"[OF False this(1)] show ?thesis by simp
  qed
qed simp_all

lemma findIndexByName_None:
  "findIndexByName pr ps = Inr None \<Longrightarrow> None \<notin> set ps \<and> (\<forall>p. Some p \<in> set ps \<longrightarrow> name p \<noteq> pr)"
proof (induction pr ps rule: findIndexByName.induct)
  case (3 pr p ps)
  then show ?case by (auto split: if_splits sum.splits)
qed simp_all



lemma sameElement_refl [simp]: "sameElement a a"
  by (simp add: sameElement_def)

lemma sameElement_trans: "sameElement a b \<Longrightarrow> sameElement b c \<Longrightarrow> sameElement a c"
  by (simp add: sameElement_def)

lemma sameElement_touched: "sameElement (touched p al this) this"
  by (simp add: sameElement_def touched_def getValues_def Let_def split: option.splits)

lemma fields_touched [simp]:
  "this_breakpoints (touched p al this) = this_breakpoints this"
  "this_allBreakpoint (touched p al this) = this_allBreakpoint this"
  "this_layoutType (touched p al this) = this_layoutType this"
  "this_properties (touched p al this) = this_properties this"
  "this_shadowRoot (touched p al this) = this_shadowRoot this"
  using sameElement_touched[of p al this] by (simp_all add: sameElement_def)

lemma fields_setValues [simp]:
  "this_breakpoints (setValues k m this) = this_breakpoints this"
  "this_allBreakpoint (setValues k m this) = this_allBreakpoint this"
  "this_layoutType (setValues k m this) = this_layoutType this"
  "this_properties (setValues k m this) = this_properties this"
  "this_shadowRoot (setValues k m this) = this_shadowRoot this"
  by (simp_all add: setValues_def)

lemma fields_push [simp]:
  "this_layoutType (push r p this) = this_layoutType this"
  "this_properties (push r p this) = this_properties this"
  "this_shadowRoot (push r p this) = this_shadowRoot this"
  by (cases r; simp)+

lemma tracked_eq:
  "tracked nm ov nv property newProp this =
     setValues (valuesKey (propOf nm) (aliasOf nm))
       (updateCounts ov nv
          (valuesOf (if newProp then push (bpOf nm this) property this else this)
             (valuesKey (propOf nm) (aliasOf nm))))
       (touched (propOf nm) (aliasOf nm)
          (if newProp then push (bpOf nm this) property this else this))"
  by (simp add: tracked_def getValues_eq)

lemma bpOf_valid:
  "bpOf nm this = Registered i \<Longrightarrow>
   i < length (this_breakpoints this) \<and> alias (this_breakpoints this ! i) = aliasOf nm"
  by (auto simp: bpOf_def getBreakpointByAlias_def split: option.splits dest: findIndex_Some)

lemma deref_push:
  assumes "r = bpOf nm this"
  shows "deref r (push r p this) = (deref r this)\<lparr>properties := properties (deref r this) @ [p]\<rparr>"
proof (cases r)
  case (Registered i)
  with assms have "bpOf nm this = Registered i" by simp
  from bpOf_valid[OF this] Registered show ?thesis by simp
next
  case AllBreakpoint
  then show ?thesis by simp
qed

lemma deref_cong:
  "this_breakpoints a = this_breakpoints b \<Longrightarrow> this_allBreakpoint a = this_allBreakpoint b \<Longrightarrow>
   deref r a = deref r b"
  by (cases r) simp_all

lemma deref_tracked:
  "deref (bpOf nm this) (tracked nm ov nv property newProp this) =
     (if newProp
      then (deref (bpOf nm this) this)
             \<lparr>properties := properties (deref (bpOf nm this) this) @ [property]\<rparr>
      else deref (bpOf nm this) this)"
proof -
  have "deref (bpOf nm this) (tracked nm ov nv property newProp this) =
        deref (bpOf nm this) (if newProp then push (bpOf nm this) property this else this)"
    unfolding tracked_eq by (rule deref_cong) simp_all
  then show ?thesis by (simp add: deref_push)
qed

lemma shadowRoot_tracked [simp]:
  "this_shadowRoot (tracked nm ov nv property newProp this) = this_shadowRoot this"
  by (simp add: tracked_eq)

lemma layoutType_tracked [simp]:
  "this_layoutType (tracked nm ov nv property newProp this) = this_layoutType this"
  by (simp add: tracked_eq)

lemma sameElement_parentLoop: "sameElement (snd (parentLoop al ps bk this)) this"
proof (induction ps arbitrary: bk this)
  case Nil
  then show ?case by simp
next
  case (Cons p ps)
  obtain host allChild where bk: "bk = (host, allChild)" by (cases bk)
  have t: "sameElement (snd (parentLoop al ps bk' (touched (name p) al this))) this" for bk'
    using Cons.IH sameElement_touched by (rule sameElement_trans)
  show ?case
    unfolding bk using t sameElement_touched[of "name p" al this]
    by (simp add: getValues_eq split: list.splits prod.splits option.splits)
qed

lemma sameElement_childLoop: "sameElement (snd (childLoop al ps css this)) this"
proof (induction ps arbitrary: css this)
  case Nil
  then show ?case by simp
next
  case (Cons p ps)
  have "sameElement (snd (childLoop al ps css' (touched (name p) al this))) this" for css'
    using Cons.IH sameElement_touched by (rule sameElement_trans)
  then show ?case by (simp add: getValues_eq)
qed

lemma sameElement_buildCss: "sameElement (snd (buildCss al props inl lt ad this)) this"
proof -
  have "sameElement (snd (childLoop al cs css (snd (parentLoop al ps bk this)))) this" for cs css ps bk
    using sameElement_childLoop sameElement_parentLoop by (rule sameElement_trans)
  then show ?thesis
    using sameElement_parentLoop[of al _ _ this]
    by (simp add: buildCss_unfold Let_def split: sum.splits prod.splits)
qed

lemma fields_buildCss [simp]:
  "this_breakpoints (snd (buildCss al props inl lt ad this)) = this_breakpoints this"
  "this_allBreakpoint (snd (buildCss al props inl lt ad this)) = this_allBreakpoint this"
  "this_layoutType (snd (buildCss al props inl lt ad this)) = this_layoutType this"
  "this_properties (snd (buildCss al props inl lt ad this)) = this_properties this"
  "this_shadowRoot (snd (buildCss al props inl lt ad this)) = this_shadowRoot this"
  using sameElement_buildCss[of al props inl lt ad this] by (simp_all add: sameElement_def)


subsection \<open>The display declaration at the empty alias\<close>




subsection \<open>The style blocks\<close>

lemma findIndex_find:
  "(case findIndex P xs of None \<Rightarrow> None | Some k \<Rightarrow> Some (xs ! k)) = find P xs"
  by (induction xs) (auto split: option.splits)

lemma styleBlock_find:
  "styleBlock i this = Option.bind (find (hasId i) (this_shadowRoot this)) textOf"
  unfolding findIndex_find[where P="hasId i" and xs="this_shadowRoot this", symmetric]
  by (simp add: styleBlock_def getElementById_def split: option.splits)

lemma find_append:
  "find P (xs @ ys) = (case find P xs of None \<Rightarrow> find P ys | Some x \<Rightarrow> Some x)"
  by (induction xs) auto

lemma find_insertBefore:
  "\<not> P n \<Longrightarrow> find P (insertBefore n r xs) = find P xs"
proof (cases r)
  case None
  assume "\<not> P n"
  with None show ?thesis by (simp add: insertBefore_def find_append split: option.splits)
next
  case (Some k)
  assume "\<not> P n"
  have "find P (take k xs @ [n] @ drop k xs)
      = (case find P (take k xs) of None \<Rightarrow> find P (drop k xs) | Some x \<Rightarrow> Some x)"
    using \<open>\<not> P n\<close> by (simp add: find_append split: option.splits)
  also have "\<dots> = find P (take k xs @ drop k xs)"
    by (simp only: find_append)
  finally show ?thesis
    using Some by (simp add: insertBefore_def)
qed

lemma find_list_update:
  assumes "\<not> P (xs ! k)" and "\<not> P y"
  shows "find P (xs[k := y]) = find P xs"
  using assms
proof (induction xs arbitrary: k)
  case Nil
  then show ?case by simp
next
  case (Cons x xs)
  then show ?case by (cases k) auto
qed

lemma hasId_setInnerHTML: "hasId i (setInnerHTML t n) = hasId i n"
  by (cases n) (auto simp: hasId_def setInnerHTML_def split: option.splits)

lemma hasId_unique: "hasId i n \<Longrightarrow> hasId j n \<Longrightarrow> i = j"
  by (auto simp: hasId_def split: node.splits option.splits)

lemma styleBlock_attachCss_other:
  assumes "i \<noteq> styleId (this_layoutType this) al"
  shows "styleBlock i (attachCss css mq al this) = styleBlock i this"
proof (cases "getElementById (styleId (this_layoutType this) al) (this_shadowRoot this)")
  case None
  have "\<not> hasId i (Style (Some (styleId (this_layoutType this) al)) t)" for t
    using assms by (simp add: hasId_def)
  with None show ?thesis
    by (simp add: styleBlock_find attachCss_def Let_def find_insertBefore)
next
  case (Some k)
  then have "hasId (styleId (this_layoutType this) al) (this_shadowRoot this ! k)"
    by (auto simp: getElementById_def dest: findIndex_Some)
  with assms have "\<not> hasId i (this_shadowRoot this ! k)"
    using hasId_unique by blast
  with Some show ?thesis
    by (simp add: styleBlock_find attachCss_def Let_def find_list_update hasId_setInnerHTML)
qed

lemma styleBlock_cong:
  "this_shadowRoot a = this_shadowRoot b \<Longrightarrow> styleBlock i a = styleBlock i b"
  by (simp add: styleBlock_find)

lemma layoutType_attachCss [simp]:
  "this_layoutType (attachCss css mq al this) = this_layoutType this"
  by (simp add: attachCss_def Let_def split: option.splits)

lemma shadowRoot_rebuild [simp]:
  "this_shadowRoot (snd (rebuild h ad bp this)) = this_shadowRoot this"
  "this_layoutType (snd (rebuild h ad bp this)) = this_layoutType this"
  by (simp_all add: rebuild_def)

lemma alias_deref_tracked [simp]:
  "alias (deref (bpOf nm this) (tracked nm ov nv property newProp this))
     = alias (deref (bpOf nm this) this)"
  "mediaQuery (deref (bpOf nm this) (tracked nm ov nv property newProp this))
     = mediaQuery (deref (bpOf nm this) this)"
  by (simp_all add: deref_tracked)

lemma alias_registered:
  assumes "aliasOf nm \<in> alias ` set (this_breakpoints this)"
  shows "alias (deref (bpOf nm this) this) = aliasOf nm"
proof (cases "bpOf nm this")
  case (Registered i)
  from bpOf_valid[OF this] Registered show ?thesis by simp
next
  case AllBreakpoint
  then have "findIndex (\<lambda>b. alias b = aliasOf nm) (this_breakpoints this) = None"
    by (simp add: bpOf_def getBreakpointByAlias_def split: option.splits)
  from findIndex_None[OF this] assms show ?thesis by auto
qed

lemma styleBlock_callback_other:
  assumes "i \<noteq> styleId (this_layoutType this) (alias (deref (bpOf nm this) this))"
  shows "styleBlock i (snd (attributeChangedCallback h nm ov nv this)) = styleBlock i this"
proof (cases "getPropertyByName (deref (bpOf nm this) this) (propOf nm) this")
  case (Inl e)
  then show ?thesis by (simp add: attributeChangedCallback_unfold)
next
  case (Inr r)
  obtain property newProp where r: "r = (property, newProp)" by (cases r)
  define this3 where "this3 = tracked nm ov nv property newProp this"
  define bp3 where "bp3 = deref (bpOf nm this) this3"
  define this4 where "this4 = snd (rebuild h (aliasOf nm \<noteq> []) bp3 this3)"
  have s4: "styleBlock i this4 = styleBlock i this"
    by (rule styleBlock_cong) (simp add: this4_def this3_def)
  have l4: "this_layoutType this4 = this_layoutType this"
    by (simp add: this4_def this3_def)
  have a3: "alias bp3 = alias (deref (bpOf nm this) this)"
    by (simp add: bp3_def this3_def)
  show ?thesis
  proof (cases "fst (rebuild h (aliasOf nm \<noteq> []) bp3 this3)")
    case (Inl e)
    with Inr r s4 show ?thesis
      by (simp add: attributeChangedCallback_unfold Let_def this3_def bp3_def this4_def)
  next
    case css: (Inr css)
    have "styleBlock i (attachCss (objectCss css) (mediaQuery bp3) (alias bp3) this4)
        = styleBlock i this4"
      using assms by (intro styleBlock_attachCss_other) (simp add: l4 a3)
    with Inr r css s4 show ?thesis
      by (simp add: attributeChangedCallback_unfold Let_def this3_def bp3_def this4_def)
  qed
qed

lemma styleId_inject:
  "styleId lt a = styleId lt b \<longleftrightarrow>
     (if a = [] then ''all'' else a) = (if b = [] then ''all'' else b)"
  by (simp add: styleId_def)

text \<open>
  Claim C8, as the code has it. A change whose alias is the alias of a registered
  breakpoint leaves every style block untouched but the one whose id is derived from
  that alias. So the block of any other alias keeps its text, unless the two aliases
  are the empty one and the word all, which share the id \<open><layoutType>-all\<close>.
\<close>

theorem breakpoint_isolation:
  assumes "aliasOf nm \<in> alias ` set (this_breakpoints this)"
  shows "(\<forall>i. i \<noteq> styleId (this_layoutType this) (aliasOf nm) \<longrightarrow>
            styleBlock i (snd (attributeChangedCallback h nm ov nv this)) = styleBlock i this)
       \<and> (\<forall>al. al \<noteq> aliasOf nm \<and> \<not> (al \<in> {[], ''all''} \<and> aliasOf nm \<in> {[], ''all''}) \<longrightarrow>
            styleBlock (styleId (this_layoutType this) al)
              (snd (attributeChangedCallback h nm ov nv this))
            = styleBlock (styleId (this_layoutType this) al) this)"
proof -
  have 1: "styleBlock i (snd (attributeChangedCallback h nm ov nv this)) = styleBlock i this"
    if "i \<noteq> styleId (this_layoutType this) (aliasOf nm)" for i
    using that styleBlock_callback_other[of i this nm h ov nv] alias_registered[OF assms]
    by simp
  have 2: "styleId (this_layoutType this) al \<noteq> styleId (this_layoutType this) (aliasOf nm)"
    if "al \<noteq> aliasOf nm" and "\<not> (al \<in> {[], ''all''} \<and> aliasOf nm \<in> {[], ''all''})" for al
    using that by (auto simp: styleId_inject split: if_splits)
  from 1 2 show ?thesis by blast
qed

subsection \<open>Unknown aliases\<close>

lemma bpOf_unregistered:
  assumes "aliasOf nm \<notin> alias ` set (this_breakpoints this)"
  shows "bpOf nm this = AllBreakpoint"
proof (cases "bpOf nm this")
  case (Registered i)
  from bpOf_valid[OF this] assms show ?thesis
    by (metis imageI nth_mem)
qed simp

lemma valuesOf_push [simp]: "valuesOf (push r p this) = valuesOf this"
  by (rule ext) (simp add: valuesOf_def)

lemma valuesOf_setValues:
  "valuesOf (setValues k m this) k' = (if k' = k then m else valuesOf this k')"
  by (simp add: valuesOf_def setValues_def update_conv')

lemma valuesOf_tracked:
  "valuesOf (tracked nm ov nv property newProp this) k =
     (if k = valuesKey (propOf nm) (aliasOf nm)
      then updateCounts ov nv (valuesOf this (valuesKey (propOf nm) (aliasOf nm)))
      else valuesOf this k)"
  by (simp add: tracked_eq valuesOf_setValues valuesOf_touched)

lemma getPropertyByName_name:
  assumes "getPropertyByName bp pr this = Inr (Some p, newProp)"
  shows "name p = pr"
proof (cases "findIndexByName pr (properties bp)")
  case (Inl e)
  with assms show ?thesis by (simp add: getPropertyByName_def)
next
  case (Inr r)
  show ?thesis
  proof (cases r)
    case None
    with Inr assms have "find (\<lambda>p. name p = pr) (this_properties this) = Some p"
      by (simp add: getPropertyByName_def)
    then show ?thesis by (auto simp: find_Some_iff)
  next
    case (Some i)
    with Inr assms findIndexByName_Some[of pr "properties bp" i] show ?thesis
      by (auto simp: getPropertyByName_def)
  qed
qed

lemma updateCounts_None_None [simp]: "updateCounts None None m = m"
  by (simp add: updateCounts_def)

lemma rebuild_cong:
  assumes "\<forall>p. Some p \<in> set (properties bp) \<longrightarrow>
             valuesOf a (valuesKey (name p) (alias bp)) = valuesOf b (valuesKey (name p) (alias bp))"
    and "this_layoutType a = this_layoutType b"
  shows "fst (rebuild h ad bp a) = fst (rebuild h ad bp b)"
  unfolding rebuild_def assms(2) using assms(1) by (rule buildCss_cong)

lemma synthesized_independent:
  assumes "\<forall>p. Some p \<in> set (properties (deref (bpOf nm this) this)) \<longrightarrow>
             valuesKey (name p) (alias (deref (bpOf nm this) this))
               \<noteq> valuesKey (propOf nm) (aliasOf nm)"
    and "valuesKey (propOf nm) (alias (deref (bpOf nm this) this))
           \<noteq> valuesKey (propOf nm) (aliasOf nm)"
  shows "synthesized h nm ov nv this = synthesized h nm ov' nv' this"
proof (cases "getPropertyByName (deref (bpOf nm this) this) (propOf nm) this")
  case (Inl e)
  then show ?thesis by (simp add: synthesized_def afterTracker_def)
next
  case (Inr r)
  obtain property newProp where r: "r = (property, newProp)" by (cases r)
  let ?bp = "deref (bpOf nm this) this"
  let ?a = "tracked nm ov nv property newProp this"
  let ?b = "tracked nm ov' nv' property newProp this"
  have bp: "deref (bpOf nm this) ?a = deref (bpOf nm this) ?b"
    by (simp add: deref_tracked)
  have keys: "valuesKey (name p) (alias (deref (bpOf nm this) ?b))
                \<noteq> valuesKey (propOf nm) (aliasOf nm)"
    if "Some p \<in> set (properties (deref (bpOf nm this) ?b))" for p
  proof (cases "Some p \<in> set (properties ?bp)")
    case True
    with assms(1) show ?thesis by simp
  next
    case False
    with that have "newProp" and "property = Some p"
      by (auto simp: deref_tracked split: if_splits)
    with Inr r getPropertyByName_name[of ?bp "propOf nm" this p newProp]
    have "name p = propOf nm" by simp
    with assms(2) show ?thesis by simp
  qed
  have "fst (rebuild h (aliasOf nm \<noteq> []) (deref (bpOf nm this) ?b) ?a)
      = fst (rebuild h (aliasOf nm \<noteq> []) (deref (bpOf nm this) ?b) ?b)"
    using keys by (intro rebuild_cong) (simp_all add: valuesOf_tracked)
  with Inr r bp show ?thesis
    by (simp add: synthesized_def afterTracker_def)
qed

lemma hasId_Style: "hasId i n \<Longrightarrow> \<exists>t. n = Style (Some i) t"
  by (cases n) (auto simp: hasId_def split: option.splits)

lemma find_insertBefore_new:
  assumes "find P xs = None" and "P n"
  shows "find P (insertBefore n r xs) = Some n"
proof -
  have t: "find P (take k xs) = None" and d: "find P (drop k xs) = None" for k
    using assms(1) by (auto simp: find_None_iff dest: in_set_takeD in_set_dropD)
  show ?thesis
    using assms t d by (cases r) (simp_all add: insertBefore_def find_append)
qed

lemma find_list_update_same:
  assumes "findIndex P xs = Some k" and "P y"
  shows "find P (xs[k := y]) = Some y"
  using assms
proof (induction xs arbitrary: k)
  case Nil
  then show ?case by simp
next
  case (Cons x xs)
  then show ?case by (cases k) (auto split: if_splits)
qed

lemma styleBlock_attachCss_same:
  "styleBlock (styleId (this_layoutType this) al) (attachCss css mq al this)
     = Some (''@media '' @ mq @ '' {'' @ toString (unwrapCss css) @ ''}'')"
proof (cases "getElementById (styleId (this_layoutType this) al) (this_shadowRoot this)")
  case None
  then have "find (hasId (styleId (this_layoutType this) al)) (this_shadowRoot this) = None"
    using findIndex_find[where P="hasId (styleId (this_layoutType this) al)"
        and xs="this_shadowRoot this"]
    by (simp add: getElementById_def)
  from find_insertBefore_new[OF this, of "Style (Some (styleId (this_layoutType this) al)) t" for t]
  show ?thesis
    using None by (simp add: styleBlock_find attachCss_def Let_def hasId_def textOf_def)
next
  case (Some k)
  then have f: "findIndex (hasId (styleId (this_layoutType this) al)) (this_shadowRoot this) = Some k"
    by (simp add: getElementById_def)
  from findIndex_Some[OF f] hasId_Style obtain t where
    n: "this_shadowRoot this ! k = Style (Some (styleId (this_layoutType this) al)) t"
    by blast
  from find_list_update_same[OF f, of "Style (Some (styleId (this_layoutType this) al)) t'" for t']
  show ?thesis
    using Some n by (simp add: styleBlock_find attachCss_def Let_def hasId_def textOf_def
        setInnerHTML_def)
qed

lemma afterTracker_Inr_iff:
  "afterTracker nm ov nv this = Inr this3 \<longleftrightarrow>
     (\<exists>property newProp.
        getPropertyByName (deref (bpOf nm this) this) (propOf nm) this = Inr (property, newProp)
        \<and> this3 = tracked nm ov nv property newProp this)"
  by (auto simp: afterTracker_def split: sum.splits)

text \<open>
  Claim C10, as the code has it. Take a change whose alias is non-empty and is the alias
  of no registered breakpoint, on an element whose fallback breakpoint has the empty
  alias, and let the lookup of the property return. Then the counts are updated under
  the key \<open><property>.<alias>\<close>; the CSS object rebuilt for the fallback breakpoint is
  the one that would be built had the change carried no values, provided no property of
  the fallback breakpoint's active list is itself named \<open><property>.<alias>\<close>; and
  when the rebuild returns, the callback completes and the style block of the empty
  alias holds the serialised object.
\<close>

theorem unknown_alias_recorded_not_rendered:
  assumes "aliasOf nm \<noteq> []"
    and "aliasOf nm \<notin> alias ` set (this_breakpoints this)"
    and "alias (this_allBreakpoint this) = []"
    and "afterTracker nm ov nv this = Inr this3"
    and "\<forall>p. Some p \<in> set (properties (this_allBreakpoint this)) \<longrightarrow>
           name p \<noteq> propOf nm @ ''.'' @ aliasOf nm"
  shows "valuesOf this3 (propOf nm @ ''.'' @ aliasOf nm)
           = updateCounts ov nv (valuesOf this (propOf nm @ ''.'' @ aliasOf nm))
       \<and> synthesized h nm ov nv this = synthesized h nm None None this
       \<and> (\<forall>css. synthesized h nm ov nv this = Inr css \<longrightarrow>
            fst (attributeChangedCallback h nm ov nv this) = None \<and>
            styleBlock (styleId (this_layoutType this) [])
              (snd (attributeChangedCallback h nm ov nv this))
            = Some (''@media '' @ mediaQuery (this_allBreakpoint this) @ '' {''
                     @ toString (unwrapCss (objectCss css)) @ ''}''))"
proof -
  have bp: "bpOf nm this = AllBreakpoint"
    using assms(2) by (rule bpOf_unregistered)
  have key: "valuesKey (propOf nm) (aliasOf nm) = propOf nm @ ''.'' @ aliasOf nm"
    using assms(1) by (simp add: valuesKey_def)
  from assms(4) obtain property newProp where
    g: "getPropertyByName (this_allBreakpoint this) (propOf nm) this = Inr (property, newProp)"
    and t3: "this3 = tracked nm ov nv property newProp this"
    by (auto simp: afterTracker_Inr_iff bp)
  have 1: "valuesOf this3 (propOf nm @ ''.'' @ aliasOf nm)
           = updateCounts ov nv (valuesOf this (propOf nm @ ''.'' @ aliasOf nm))"
    by (simp add: t3 valuesOf_tracked key)
  have 2: "synthesized h nm ov nv this = synthesized h nm None None this"
    using assms(1,3,5) by (intro synthesized_independent) (simp_all add: bp key valuesKey_def)
  have 3: "fst (attributeChangedCallback h nm ov nv this) = None \<and>
            styleBlock (styleId (this_layoutType this) [])
              (snd (attributeChangedCallback h nm ov nv this))
            = Some (''@media '' @ mediaQuery (this_allBreakpoint this) @ '' {''
                     @ toString (unwrapCss (objectCss css)) @ ''}'')"
    if "synthesized h nm ov nv this = Inr css" for css
  proof -
    let ?bp3 = "deref (bpOf nm this) this3"
    let ?this4 = "snd (rebuild h (aliasOf nm \<noteq> []) ?bp3 this3)"
    from that g t3 have r: "fst (rebuild h (aliasOf nm \<noteq> []) ?bp3 this3) = Inr css"
      by (simp add: synthesized_def afterTracker_def bp)
    have a: "alias ?bp3 = []" and m: "mediaQuery ?bp3 = mediaQuery (this_allBreakpoint this)"
      using assms(3) by (simp_all add: t3 bp[symmetric]) (simp_all add: bp)
    have l: "this_layoutType ?this4 = this_layoutType this"
      by (simp add: t3)
    have "styleBlock (styleId (this_layoutType ?this4) [])
            (attachCss (objectCss css) (mediaQuery ?bp3) [] ?this4)
          = Some (''@media '' @ mediaQuery ?bp3 @ '' {'' @ toString (unwrapCss (objectCss css)) @ ''}'')"
      by (rule styleBlock_attachCss_same)
    with g r a m l show ?thesis
      by (simp add: attributeChangedCallback_unfold Let_def bp t3[symmetric])
  qed
  from 1 2 3 show ?thesis by blast
qed

subsection \<open>Child selectors\<close>






subsection \<open>Reference counts\<close>

lemma countIn_updateCounts:
  assumes "\<And>x. ov = Some x \<Longrightarrow> map_of m x \<noteq> None"
  shows "countIn (updateCounts ov nv m) v =
           countIn m v - (if ov = Some v then 1 else 0) + (if nv = Some v then 1 else 0)"
proof (cases ov)
  case None
  then show ?thesis
    by (cases nv) (auto simp: updateCounts_def countIn_def update_conv' Let_def split: option.splits)
next
  case (Some x)
  with assms obtain n where n: "map_of m x = Some n" by blast
  show ?thesis
  proof (cases nv)
    case None
    with Some n show ?thesis
      by (auto simp: updateCounts_def countIn_def update_conv' delete_conv' Let_def split: option.splits)
  next
    case nv: (Some w)
    show ?thesis
    proof (cases "w = x")
      case True
      with Some n nv show ?thesis
        by (auto simp: updateCounts_def countIn_def update_conv' delete_conv' Let_def split: option.splits)
    next
      case False
      with Some n nv show ?thesis
        by (auto simp: updateCounts_def countIn_def update_conv' delete_conv' Let_def split: option.splits)
    qed
  qed
qed

lemma finite_carriers:
  assumes "finite {x. g x \<noteq> None}"
  shows "finite (carriers g key v)"
proof (rule finite_subset[OF _ assms])
  show "carriers g key v \<subseteq> {x. g x \<noteq> None}"
    by (auto simp: carriers_def)
qed

lemma carriers_update:
  "carriers (g(x := nv)) key v =
     (if valuesKey (fst (snd x)) (snd (snd x)) = key \<and> nv = Some v
      then insert x (carriers g key v) else carriers g key v - {x})"
  by (cases x) (auto simp: carriers_def)

lemma mem_carriers:
  "x \<in> carriers g key v \<longleftrightarrow> valuesKey (fst (snd x)) (snd (snd x)) = key \<and> g x = Some v"
  by (cases x) (auto simp: carriers_def)

lemma card_carriers_update:
  assumes "finite {x. g x \<noteq> None}"
  shows "int (card (carriers (g(x := nv)) key v)) =
           int (card (carriers g key v))
           - (if valuesKey (fst (snd x)) (snd (snd x)) = key \<and> g x = Some v then 1 else 0)
           + (if valuesKey (fst (snd x)) (snd (snd x)) = key \<and> nv = Some v then 1 else 0)"
proof -
  note fin = finite_carriers[OF assms, of key v]
  show ?thesis
  proof (cases "x \<in> carriers g key v")
    case True
    then have pos: "0 < card (carriers g key v)"
      using fin by (auto simp: card_gt_0_iff)
    from True have k: "valuesKey (fst (snd x)) (snd (snd x)) = key" and gx: "g x = Some v"
      by (simp_all add: mem_carriers)
    show ?thesis
    proof (cases "nv = Some v")
      case eq: True
      with True k gx show ?thesis
        by (simp add: carriers_update insert_absorb)
    next
      case False
      with True k gx fin pos show ?thesis
        by (simp add: carriers_update card_Diff_singleton of_nat_diff)
    qed
  next
    case False
    then have n: "\<not> (valuesKey (fst (snd x)) (snd (snd x)) = key \<and> g x = Some v)"
      by (simp add: mem_carriers)
    show ?thesis
    proof (cases "valuesKey (fst (snd x)) (snd (snd x)) = key \<and> nv = Some v")
      case True
      with False n fin show ?thesis
        by (simp add: carriers_update)
    next
      case no: False
      with False n show ?thesis
        by (auto simp add: carriers_update)
    qed
  qed
qed

lemma finite_carried_update:
  assumes "finite {x. g x \<noteq> None}"
  shows "finite {y. (g(x := nv)) y \<noteq> None}"
proof (rule finite_subset)
  show "{y. (g(x := nv)) y \<noteq> None} \<subseteq> insert x {y. g y \<noteq> None}"
    by auto
  show "finite (insert x {y. g y \<noteq> None})"
    using assms by simp
qed

lemma findIndexByName_total:
  "None \<notin> set ps \<Longrightarrow> \<exists>r. findIndexByName pr ps = Inr r"
proof (induction pr ps rule: findIndexByName.induct)
  case (3 pr p ps)
  show ?case
  proof (cases "name p = pr")
    case True
    then show ?thesis by simp
  next
    case False
    with "3.IH" "3.prems" obtain r where "findIndexByName pr ps = Inr r" by auto
    with False show ?thesis by simp
  qed
qed simp_all

lemma lookup_registered:
  assumes "None \<notin> set (properties bp)"
    and "pr \<in> name ` set (this_properties this)"
  shows "\<exists>p newProp. getPropertyByName bp pr this = Inr (Some p, newProp)"
proof -
  from findIndexByName_total[OF assms(1)] obtain r where r: "findIndexByName pr (properties bp) = Inr r"
    by blast
  show ?thesis
  proof (cases r)
    case None
    from assms(2) have "find (\<lambda>p. name p = pr) (this_properties this) \<noteq> None"
      by (auto simp: find_None_iff)
    with r None show ?thesis
      by (auto simp: getPropertyByName_def)
  next
    case (Some i)
    with r findIndexByName_Some[of pr "properties bp" i] show ?thesis
      by (auto simp: getPropertyByName_def)
  qed
qed

lemma valuesOf_attachCss [simp]: "valuesOf (attachCss css mq al this) = valuesOf this"
  by (rule ext) (simp add: valuesOf_def)

lemma valuesOf_rebuild [simp]: "valuesOf (snd (rebuild h ad bp this)) = valuesOf this"
  by (simp add: rebuild_def valuesOf_buildCss)

lemma fields_rebuild [simp]:
  "this_breakpoints (snd (rebuild h ad bp this)) = this_breakpoints this"
  "this_allBreakpoint (snd (rebuild h ad bp this)) = this_allBreakpoint this"
  "this_properties (snd (rebuild h ad bp this)) = this_properties this"
  by (simp_all add: rebuild_def)

lemma fields_attachCss [simp]:
  "this_breakpoints (attachCss css mq al this) = this_breakpoints this"
  "this_allBreakpoint (attachCss css mq al this) = this_allBreakpoint this"
  "this_properties (attachCss css mq al this) = this_properties this"
  by (simp_all add: attachCss_def Let_def split: option.splits)

lemma fields_tracked [simp]:
  "this_breakpoints (tracked nm ov nv property newProp this)
     = this_breakpoints (if newProp then push (bpOf nm this) property this else this)"
  "this_allBreakpoint (tracked nm ov nv property newProp this)
     = this_allBreakpoint (if newProp then push (bpOf nm this) property this else this)"
  "this_properties (tracked nm ov nv property newProp this) = this_properties this"
  by (simp_all add: tracked_eq)

lemma callback_after_lookup:
  assumes "getPropertyByName (deref (bpOf nm this) this) (propOf nm) this = Inr (property, newProp)"
  shows "valuesOf (snd (attributeChangedCallback h nm ov nv this))
           = valuesOf (tracked nm ov nv property newProp this)"
    and "this_breakpoints (snd (attributeChangedCallback h nm ov nv this))
           = this_breakpoints (if newProp then push (bpOf nm this) property this else this)"
    and "this_allBreakpoint (snd (attributeChangedCallback h nm ov nv this))
           = this_allBreakpoint (if newProp then push (bpOf nm this) property this else this)"
    and "this_properties (snd (attributeChangedCallback h nm ov nv this)) = this_properties this"
  using assms
  by (simp_all add: attributeChangedCallback_unfold Let_def split: sum.splits)

lemma noUndefined_push:
  assumes "noUndefined this"
  shows "noUndefined (push (bpOf nm this) (Some p) this)"
proof (cases "bpOf nm this")
  case (Registered i)
  from bpOf_valid[OF this] have i: "i < length (this_breakpoints this)" by simp
  have "None \<notin> set (properties b)"
    if "b \<in> set ((this_breakpoints this)[i := (this_breakpoints this ! i)
          \<lparr>properties := properties (this_breakpoints this ! i) @ [Some p]\<rparr>])" for b
  proof -
    from that have "b = (this_breakpoints this ! i)
          \<lparr>properties := properties (this_breakpoints this ! i) @ [Some p]\<rparr>
        \<or> b \<in> set (this_breakpoints this)"
      using set_update_subset_insert by fastforce
    with assms i show ?thesis
      by (auto simp: noUndefined_def)
  qed
  with assms Registered show ?thesis
    by (simp add: noUndefined_def)
next
  case AllBreakpoint
  with assms show ?thesis by (simp add: noUndefined_def)
qed

lemma noUndefined_cong:
  "this_breakpoints a = this_breakpoints b \<Longrightarrow> this_allBreakpoint a = this_allBreakpoint b \<Longrightarrow>
   noUndefined a = noUndefined b"
  by (simp add: noUndefined_def)

lemma noUndefined_deref:
  assumes "noUndefined this"
  shows "None \<notin> set (properties (deref (bpOf nm this) this))"
proof (cases "bpOf nm this")
  case (Registered i)
  from bpOf_valid[OF this] assms Registered show ?thesis
    by (simp add: noUndefined_def)
next
  case AllBreakpoint
  with assms show ?thesis by (simp add: noUndefined_def)
qed

lemma deliver_step:
  assumes t: "tracks this g" and u: "noUndefined this"
    and wf: "oldValue c = g (slotOf c)"
    and reg: "propOf (attributeName c) \<in> name ` set (this_properties this)"
  shows "tracks (snd (deliver c this)) (g(slotOf c := newValue c))
       \<and> noUndefined (snd (deliver c this))
       \<and> this_properties (snd (deliver c this)) = this_properties this"
proof -
  let ?nm = "attributeName c"
  let ?k0 = "valuesKey (propOf ?nm) (aliasOf ?nm)"
  from lookup_registered[OF noUndefined_deref[OF u] reg] obtain p newProp where
    g: "getPropertyByName (deref (bpOf ?nm this) this) (propOf ?nm) this = Inr (Some p, newProp)"
    by blast
  note after = callback_after_lookup[OF g, of "\<lambda>a. a \<in> set (hostAttributes c)" "oldValue c" "newValue c"]
  from t have fin: "finite {x. g x \<noteq> None}"
    and cnt: "\<And>key v. countOf this key v = int (card (carriers g key v))"
    by (simp_all add: tracks_def)
  have present: "map_of (valuesOf this ?k0) x \<noteq> None" if "oldValue c = Some x" for x
  proof -
    from that wf have "slotOf c \<in> carriers g ?k0 x"
      by (simp add: mem_carriers slotOf_def)
    with finite_carriers[OF fin, of ?k0 x] have "0 < card (carriers g ?k0 x)"
      by (auto simp: card_gt_0_iff)
    with cnt[of ?k0 x] have "countIn (valuesOf this ?k0) x \<noteq> 0"
      by (simp add: countOf_def)
    then show ?thesis
      by (cases "map_of (valuesOf this ?k0) x") (simp_all add: countIn_def)
  qed
  have key: "valuesKey (fst (snd (slotOf c))) (snd (snd (slotOf c))) = ?k0"
    by (simp add: slotOf_def)
  have "countOf (snd (deliver c this)) k v
      = int (card (carriers (g(slotOf c := newValue c)) k v))" for k v
  proof (cases "k = ?k0")
    case True
    have "countOf (snd (deliver c this)) k v
        = countIn (updateCounts (oldValue c) (newValue c) (valuesOf this ?k0)) v"
      using True by (simp add: countOf_def deliver_def after(1) valuesOf_tracked)
    also have "\<dots> = countOf this ?k0 v - (if oldValue c = Some v then 1 else 0)
                 + (if newValue c = Some v then 1 else 0)"
      using present by (simp add: countIn_updateCounts countOf_def)
    also have "\<dots> = int (card (carriers (g(slotOf c := newValue c)) ?k0 v))"
      using wf by (simp add: card_carriers_update[OF fin] key cnt)
    finally show ?thesis using True by simp
  next
    case False
    then have "countOf (snd (deliver c this)) k v = countOf this k v"
      by (simp add: countOf_def deliver_def after(1) valuesOf_tracked)
    also have "\<dots> = int (card (carriers (g(slotOf c := newValue c)) k v))"
      using False by (simp add: card_carriers_update[OF fin] key cnt)
    finally show ?thesis .
  qed
  then have 1: "tracks (snd (deliver c this)) (g(slotOf c := newValue c))"
    using finite_carried_update[OF fin] by (simp add: tracks_def)
  have "noUndefined (if newProp then push (bpOf ?nm this) (Some p) this else this)"
    using u noUndefined_push by simp
  then have 2: "noUndefined (snd (deliver c this))"
    using noUndefined_cong[OF after(2,3)] by (simp add: deliver_def)
  from 1 2 after(4) show ?thesis
    by (simp add: deliver_def)
qed

lemma deliverAll_tracks:
  assumes "tracks this g" and "noUndefined this" and "wellFormed g cs"
    and "\<forall>c \<in> set cs. propOf (attributeName c) \<in> name ` set (this_properties this)"
  shows "tracks (deliverAll cs this) (carriedAfter g cs)"
  using assms
proof (induction cs arbitrary: this g)
  case Nil
  then show ?case by simp
next
  case (Cons c cs)
  from Cons.prems have wf: "oldValue c = g (slotOf c)"
    and reg: "propOf (attributeName c) \<in> name ` set (this_properties this)"
    by simp_all
  from deliver_step[OF Cons.prems(1,2) wf reg]
  have t': "tracks (snd (deliver c this)) (g(slotOf c := newValue c))"
    and u': "noUndefined (snd (deliver c this))"
    and p': "this_properties (snd (deliver c this)) = this_properties this"
    by simp_all
  have wf': "wellFormed (g(slotOf c := newValue c)) cs"
    using Cons.prems(3) by simp
  have reg': "\<forall>c' \<in> set cs. propOf (attributeName c')
      \<in> name ` set (this_properties (snd (deliver c this)))"
    using Cons.prems(4) p' by simp
  from Cons.IH[OF t' u' wf' reg'] show ?case
    by (simp only: carriedAfter.simps deliverAll.simps)
qed

lemma carriers_nothingCarried [simp]: "carriers nothingCarried key v = {}"
  by (auto simp: carriers_def nothingCarried_def)

lemma tracks_constructor: "tracks (constructor getBps layoutType props) nothingCarried"
  unfolding tracks_def
proof (intro conjI allI)
  show "finite {x. nothingCarried x \<noteq> None}"
    by (simp add: nothingCarried_def)
  show "countOf (constructor getBps layoutType props) key v
      = int (card (carriers nothingCarried key v))" for key v
    by (simp add: countOf_def countIn_def valuesOf_def constructor_def)
qed

lemma noUndefined_constructor:
  "\<forall>b \<in> set getBps. None \<notin> set (properties b) \<Longrightarrow>
   noUndefined (constructor getBps layoutType props)"
  by (simp add: noUndefined_def constructor_def allBreakpoint_def)

lemma carriedAfter_origin:
  "carriedAfter g cs (e, p, a) = Some v \<Longrightarrow>
   g (e, p, a) = Some v \<or> (\<exists>c \<in> set cs. p = propOf (attributeName c))"
proof (induction cs arbitrary: g)
  case Nil
  then show ?case by simp
next
  case (Cons c cs)
  from Cons.prems have "carriedAfter (g(slotOf c := newValue c)) cs (e, p, a) = Some v"
    by (simp only: carriedAfter.simps)
  from Cons.IH[OF this] consider
    (here) "(g(slotOf c := newValue c)) (e, p, a) = Some v"
    | (later) "\<exists>c' \<in> set cs. p = propOf (attributeName c')"
    by blast
  then show ?case
  proof cases
    case here
    show ?thesis
    proof (cases "(e, p, a) = slotOf c")
      case True
      then have "p = propOf (attributeName c)" by (simp add: slotOf_def)
      then show ?thesis by simp
    next
      case False
      with here have "g (e, p, a) = Some v" by (simp only: fun_upd_apply if_False)
      then show ?thesis by simp
    qed
  next
    case later
    then show ?thesis by auto
  qed
qed

lemma append_separator_inject:
  assumes "x \<notin> set xs" and "x \<notin> set xs'" and "xs @ x # ys = xs' @ x # ys'"
  shows "xs = xs' \<and> ys = ys'"
  using assms
proof (induction xs arbitrary: xs')
  case Nil
  then show ?case by (cases xs') auto
next
  case (Cons y xs)
  then show ?case by (cases xs') auto
qed

lemma valuesKey_inject:
  assumes "CHR ''.'' \<notin> set p" and "CHR ''.'' \<notin> set p'"
    and "valuesKey p a = valuesKey p' a'"
  shows "p = p' \<and> a = a'"
proof (cases "a = []"; cases "a' = []")
  assume "a \<noteq> []" "a' \<noteq> []"
  with assms(3) have "p @ CHR ''.'' # a = p' @ CHR ''.'' # a'"
    by (simp add: valuesKey_def)
  with assms(1,2) show ?thesis
    by (rule append_separator_inject)
next
  assume "a = []" "a' \<noteq> []"
  with assms(3) have "p = p' @ CHR ''.'' # a'" by (simp add: valuesKey_def)
  with assms(1) show ?thesis by simp
next
  assume "a \<noteq> []" "a' = []"
  with assms(3) have "p' = p @ CHR ''.'' # a" by (simp add: valuesKey_def)
  with assms(2) show ?thesis by simp
next
  assume "a = []" "a' = []"
  with assms(3) show ?thesis by (simp add: valuesKey_def)
qed

text \<open>
  Claim C1, as the code has it. Let a well-formed sequence of changes, each of a
  property of the registry, be delivered to a constructed element whose breakpoints come
  without undefined entries. Then the count stored for a value under the key of a
  property and alias is the number of slots with that key that hold the value. When no
  property name has a dot, the key determines the property and the alias, and the count
  is the number of elements that carry the value for that property and alias.
\<close>

theorem reference_counts:
  assumes "wellFormed nothingCarried cs"
    and "\<forall>c \<in> set cs. propOf (attributeName c) \<in> name ` set props"
    and "\<forall>b \<in> set getBps. None \<notin> set (properties b)"
  shows "countOf (deliverAll cs (constructor getBps layoutType props)) (valuesKey pr al) v
           = int (card (carriers (carriedAfter nothingCarried cs) (valuesKey pr al) v))
       \<and> ((\<forall>p \<in> set props. CHR ''.'' \<notin> set (name p)) \<and> CHR ''.'' \<notin> set pr \<longrightarrow>
            countOf (deliverAll cs (constructor getBps layoutType props)) (valuesKey pr al) v
              = int (card (elementsCarrying (carriedAfter nothingCarried cs) pr al v)))"
proof -
  let ?G = "carriedAfter nothingCarried cs"
  let ?st = "deliverAll cs (constructor getBps layoutType props)"
  have "tracks ?st ?G"
    using assms
    by (intro deliverAll_tracks tracks_constructor noUndefined_constructor)
       (simp_all add: constructor_def)
  then have 1: "countOf ?st (valuesKey pr al) v = int (card (carriers ?G (valuesKey pr al) v))"
    by (simp add: tracks_def)
  have 2: "card (carriers ?G (valuesKey pr al) v) = card {e. ?G (e, pr, al) = Some v}"
    if nodot: "\<forall>p \<in> set props. CHR ''.'' \<notin> set (name p)" and pr: "CHR ''.'' \<notin> set pr"
  proof -
    have "carriers ?G (valuesKey pr al) v = (\<lambda>e. (e, pr, al)) ` {e. ?G (e, pr, al) = Some v}"
    proof (rule set_eqI)
      fix x :: "nat \<times> string \<times> string"
      obtain e p a where x: "x = (e, p, a)" by (cases x)
      show "x \<in> carriers ?G (valuesKey pr al) v
          \<longleftrightarrow> x \<in> (\<lambda>e. (e, pr, al)) ` {e. ?G (e, pr, al) = Some v}"
      proof
        assume "x \<in> carriers ?G (valuesKey pr al) v"
        with x have k: "valuesKey p a = valuesKey pr al" and c: "?G (e, p, a) = Some v"
          by (simp_all add: carriers_def)
        from carriedAfter_origin[OF c] obtain c' where "c' \<in> set cs" "p = propOf (attributeName c')"
          by (auto simp: nothingCarried_def)
        with assms(2) nodot have "CHR ''.'' \<notin> set p" by auto
        from valuesKey_inject[OF this pr k] c x
        show "x \<in> (\<lambda>e. (e, pr, al)) ` {e. ?G (e, pr, al) = Some v}" by simp
      next
        assume "x \<in> (\<lambda>e. (e, pr, al)) ` {e. ?G (e, pr, al) = Some v}"
        with x show "x \<in> carriers ?G (valuesKey pr al) v"
          by (auto simp: carriers_def)
      qed
    qed
    moreover have "inj_on (\<lambda>e. (e, pr, al)) {e. ?G (e, pr, al) = Some v}"
      by (simp add: inj_on_def)
    ultimately show ?thesis
      by (simp add: card_image)
  qed
  from 1 2 show ?thesis
    by (simp add: elementsCarrying_def)
qed

section \<open>The theorems at concrete inputs\<close>

text \<open>
  Claim C2 on the example layout: two changes whose old value is not tracked, and the
  counts that remain.
\<close>

theorem tracker_counts_at_least_one_witness:
  "this_propertyMap (deliverAll
      [changeOf 0 ''gap'' (Some ''zz'') (Some ''8px''), changeOf 1 ''gap'' None (Some ''4px''),
       changeOf 0 ''gap'' (Some ''8px'') None, changeOf 0 ''gap'' (Some ''8px'') None]
      exampleLayout) = [(''gap'', [(''4px'', 1)])]
   \<and> countsOk (deliverAll
      [changeOf 0 ''gap'' (Some ''zz'') (Some ''8px''), changeOf 1 ''gap'' None (Some ''4px''),
       changeOf 0 ''gap'' (Some ''8px'') None, changeOf 0 ''gap'' (Some ''8px'') None]
      exampleLayout)"
proof
  show "this_propertyMap (deliverAll
      [changeOf 0 ''gap'' (Some ''zz'') (Some ''8px''), changeOf 1 ''gap'' None (Some ''4px''),
       changeOf 0 ''gap'' (Some ''8px'') None, changeOf 0 ''gap'' (Some ''8px'') None]
      exampleLayout) = [(''gap'', [(''4px'', 1)])]"
    by code_simp
  show "countsOk (deliverAll
      [changeOf 0 ''gap'' (Some ''zz'') (Some ''8px''), changeOf 1 ''gap'' None (Some ''4px''),
       changeOf 0 ''gap'' (Some ''8px'') None, changeOf 0 ''gap'' (Some ''8px'') None]
      exampleLayout)"
    unfolding exampleLayout_def by (rule tracker_counts_at_least_one)
qed




text \<open>Claim C3 with the inline flag set, after \<open>gap="8px"\<close> on the host.\<close>

theorem display_injection_rule_witness:
  "fst (buildCss [] [Some gapProperty] True ''flex'' False gapSet)
     = Inr [(parentKey, [(''gap'', ''8px''), (''display'', ''inline-flex'')]), (allChildKey, [])]
   \<and> (\<exists>host bucket.
         hostAfterParentLoop [] [Some gapProperty] gapSet = Some host \<and>
         map_of [(parentKey, [(''gap'', ''8px''), (''display'', ''inline-flex'')]), (allChildKey, [])]
           parentKey = Some bucket \<and>
         ((''display'' \<in> fst ` set bucket) = (host \<noteq> [] \<or> False)) \<and>
         (''display'' \<in> fst ` set bucket \<longrightarrow>
            map_of bucket ''display'' = Some (if True then ''inline-'' @ ''flex'' else ''flex'')))"
proof -
  let ?css = "[(parentKey, [(''gap'', ''8px''), (''display'', ''inline-flex'')]), (allChildKey, [])]"
  have e: "fst (buildCss [] [Some gapProperty] True ''flex'' False gapSet) = Inr ?css"
    by code_simp
  then have "buildCss [] [Some gapProperty] True ''flex'' False gapSet
      = (Inr ?css, snd (buildCss [] [Some gapProperty] True ''flex'' False gapSet))"
    by (simp add: prod_eq_iff)
  from display_injection_rule[OF this] e show ?thesis by blast
qed

lemma example_values:
  "valuesOf gapSetTwice ''gap'' = [(''8px'', 1), (''4px'', 1)]"
  "valuesOf gapSet ''gap'' = [(''8px'', 1)]"
  "valuesOf gapRemoved ''gap'' = []"
  by code_simp+

lemma example_first_values:
  "firstValueOf gapSetTwice [] gapProperty = Some ''8px''"
  "firstValueOf gapSet [] gapProperty = Some ''8px''"
  by (simp_all add: firstValueOf_def valuesKey_def gapProperty_def example_values firstKey_def)

text \<open>
  Claim C7: a second element sets \<open>gap="4px"\<close> after the first has set
  \<open>gap="8px"\<close>. The map of \<open>gap\<close> holds both values; the \<open>:host\<close> bucket holds the
  declaration of the first, \<open>gap: 8px\<close>, and the display declaration, and the buckets
  are those of the state in which only \<open>8px\<close> is set.
\<close>

theorem host_tie_break_witness:
  "valuesOf gapSetTwice ''gap'' = [(''8px'', 1), (''4px'', 1)]
   \<and> firstValueOf gapSetTwice [] gapProperty = Some ''8px''
   \<and> updateFn gapProperty ''8px'' [] = ([(''gap'', ''8px'')], Some [])
   \<and> hostRules (fst (buildCss [] [Some gapProperty, Some orderProperty] False ''flex'' False
         gapSetTwice))
       = Inr (Some [(''gap'', ''8px''), (''display'', ''flex'')], Some [])
   \<and> (\<exists>host allChild.
         map_of (projr (fst (buildCss [] [Some gapProperty, Some orderProperty] False ''flex''
                   False gapSetTwice))) parentKey = Some host
         \<and> map_of (projr (fst (buildCss [] [Some gapProperty, Some orderProperty] False ''flex''
                   False gapSetTwice))) allChildKey = Some allChild
         \<and> map_of host ''gap'' = Some ''8px'')
   \<and> hostRules (fst (buildCss [] [Some gapProperty, Some orderProperty] False ''flex'' False
         gapSetTwice))
       = hostRules (fst (buildCss [] [Some gapProperty, Some orderProperty] False ''flex'' False
           gapSet))
   \<and> firstKey (updateCounts None (Some ''4px'') [(''8px'', 1)]) = Some ''8px''"
proof -
  let ?props = "[Some gapProperty, Some orderProperty]"
  let ?r = "fst (buildCss [] ?props False ''flex'' False gapSetTwice)"
  note t = host_tie_break[of "[]" ?props False "''flex''" False gapSetTwice "projr ?r"
      gapProperty "''8px''" 1 "[(''4px'', 1)]" "[(''gap'', ''8px'')]" "[]"
      gapSetTwice gapSet "[(''8px'', 1)]" "''8px''" None "Some ''4px''"]
  have u: "updateFn gapProperty ''8px'' [] = ([(''gap'', ''8px'')], Some [])"
    by (simp add: gapProperty_def)
  have rules: "firstValueRules [] ?props False ''flex'' False (firstValueOf gapSetTwice [])
      = Inr (Some [(''gap'', ''8px''), (''display'', ''flex'')], Some [])"
    by (simp add: firstValueRules_def example_first_values u)
       (simp add: gapProperty_def orderProperty_def)
  from trans[OF t[THEN conjunct1] rules]
  have 1: "hostRules ?r = Inr (Some [(''gap'', ''8px''), (''display'', ''flex'')], Some [])" .
  then have r: "?r = Inr (projr ?r)"
    by (cases ?r) (simp_all add: hostRules_def)
  have others: "\<forall>q. Some q \<in> set ?props \<and> \<not> child q \<longrightarrow> q = gapProperty"
    by (auto simp: orderProperty_def)
  have 2: "\<exists>host allChild.
         map_of (projr ?r) parentKey = Some host
         \<and> map_of (projr ?r) allChildKey = Some allChild
         \<and> map_of host ''gap'' = Some ''8px''"
  proof -
    have "name gapProperty = ''gap''" and nc: "\<not> child gapProperty"
      by (simp_all add: gapProperty_def)
    then have vs: "valuesOf gapSetTwice (valuesKey (name gapProperty) [])
        = (''8px'', 1) # [(''4px'', 1)]"
      by (simp add: valuesKey_def example_values)
    have sp: "Some gapProperty \<in> set ?props" by simp
    have prem:
      "?r = Inr (projr ?r) \<and> Some gapProperty \<in> set ?props \<and> \<not> child gapProperty
       \<and> valuesOf gapSetTwice (valuesKey (name gapProperty) []) = (''8px'', 1) # [(''4px'', 1)]
       \<and> updateFn gapProperty ''8px'' [] = ([(''gap'', ''8px'')], Some [])"
      using r sp nc vs u by - (intro conjI; assumption)
    have gap: "''gap'' \<in> fst ` set [(''gap'', ''8px'')]" by simp
    have alone: "\<forall>q w. Some q \<in> set ?props \<and> \<not> child q \<and> q \<noteq> gapProperty
                           \<and> firstValueOf gapSetTwice [] q = Some w
                       \<longrightarrow> ''gap'' \<notin> fst ` set (fst (updateFn q w []))"
      using others by blast
    have val: "map_of (assign [(''gap'', ''8px'')] []) ''gap'' = Some ''8px''" by simp
    from mp[OF t[THEN conjunct2, THEN conjunct1] prem] show ?thesis
    proof (elim exE conjE)
      fix host allChild
      assume h: "map_of (projr ?r) parentKey = Some host"
        and c: "map_of (projr ?r) allChildKey = Some allChild"
        and k: "\<forall>k \<in> fst ` set [(''gap'', ''8px'')].
                k \<noteq> ''display''
                \<and> (\<forall>q w. Some q \<in> set ?props \<and> \<not> child q \<and> q \<noteq> gapProperty
                           \<and> firstValueOf gapSetTwice [] q = Some w
                       \<longrightarrow> k \<notin> fst ` set (fst (updateFn q w [])))
                \<longrightarrow> map_of host k = map_of (assign [(''gap'', ''8px'')] []) k"
      have ne: "''gap'' \<noteq> ''display''" by simp
      from ne alone have
        "''gap'' \<noteq> ''display''
         \<and> (\<forall>q w. Some q \<in> set ?props \<and> \<not> child q \<and> q \<noteq> gapProperty
                    \<and> firstValueOf gapSetTwice [] q = Some w
                \<longrightarrow> ''gap'' \<notin> fst ` set (fst (updateFn q w [])))"
        by (rule conjI)
      from mp[OF bspec[OF k gap] this]
      have "map_of host ''gap'' = map_of (assign [(''gap'', ''8px'')] []) ''gap''" .
      from trans[OF this val] have g: "map_of host ''gap'' = Some ''8px''" .
      from h c g show ?thesis
        by - (rule exI, rule exI, intro conjI; assumption)
    qed
  qed
  have 3: "hostRules ?r = hostRules (fst (buildCss [] ?props False ''flex'' False gapSet))"
  proof -
    have "\<forall>q. Some q \<in> set ?props \<and> \<not> child q
            \<longrightarrow> firstValueOf gapSetTwice [] q = firstValueOf gapSet [] q"
    proof (intro allI impI)
      fix q
      assume "Some q \<in> set ?props \<and> \<not> child q"
      with others have "q = gapProperty" by blast
      then show "firstValueOf gapSetTwice [] q = firstValueOf gapSet [] q"
        by (simp add: example_first_values)
    qed
    from mp[OF t[THEN conjunct2, THEN conjunct2, THEN conjunct1] this] show ?thesis .
  qed
  have 4: "firstKey (updateCounts None (Some ''4px'') [(''8px'', 1)]) = Some ''8px''"
  proof -
    have "firstKey [(''8px'', 1)] = Some ''8px''" by (simp add: firstKey_def)
    from mp[OF t[THEN conjunct2, THEN conjunct2, THEN conjunct2] this] show ?thesis by simp
  qed
  from 1 2 3 4 u show ?thesis
    by (simp add: example_values example_first_values)
qed

text \<open>
  Claim C9 on the fresh example layout: the first synthesis creates the empty map of
  \<open>gap\<close>, the second finds it, and both return the same text.
\<close>

theorem resynthesis_idempotent_witness:
  "this_propertyMap exampleLayout = []
   \<and> this_propertyMap (snd (synthesize [] [Some gapProperty] False ''flex'' True exampleLayout))
       = [(''gap'', [])]
   \<and> fst (synthesize [] [Some gapProperty] False ''flex'' True
         (snd (synthesize [] [Some gapProperty] False ''flex'' True exampleLayout)))
       = fst (synthesize [] [Some gapProperty] False ''flex'' True exampleLayout)
   \<and> fst (synthesize [] [Some gapProperty] False ''flex'' True exampleLayout)
       = Inr '':host {display: flex;}''"
proof -
  have "this_propertyMap exampleLayout = []"
    and "this_propertyMap (snd (synthesize [] [Some gapProperty] False ''flex'' True exampleLayout))
       = [(''gap'', [])]"
    and "fst (synthesize [] [Some gapProperty] False ''flex'' True exampleLayout)
       = Inr '':host {display: flex;}''"
    by code_simp+
  with resynthesis_idempotent[of "[]" "[Some gapProperty]" False "''flex''" True exampleLayout]
  show ?thesis by simp
qed



lemma namesOf_Some: "Some p \<in> set ps \<Longrightarrow> Some (name p) \<in> set (namesOf ps)"
  by (induction ps) (auto simp: namesOf_def)

lemma afterTracker_projr:
  "\<not> isl (afterTracker nm ov nv this) \<Longrightarrow>
   afterTracker nm ov nv this = Inr (projr (afterTracker nm ov nv this))"
  by simp


text \<open>
  Claim C8 as it was stated fails for a registered breakpoint whose alias is the word
  all: a change at \<open>gap-all\<close> rewrites the style block of the empty alias.
\<close>

theorem breakpoint_isolation_counterexample:
  "map alias (this_breakpoints allBreakpointLayout) = [''all'']
   \<and> aliasOf ''gap-all'' = ''all''
   \<and> styleBlock (styleId ''flex'' []) allBreakpointLayout
       = Some ''@media all {:host {display: flex;}}''
   \<and> styleBlock (styleId ''flex'' [])
        (snd (attributeChangedCallback noAttributes ''gap-all'' None (Some ''8px'')
           allBreakpointLayout))
       = Some ''@media print {:host {gap: 8px;display: flex;}}''"
  by code_simp

text \<open>
  Claim C8 as the code has it: a change at \<open>gap-sm\<close> writes the block of \<open>sm\<close> and
  leaves the block of the empty alias as the constructor wrote it.
\<close>

theorem breakpoint_isolation_witness:
  "aliasOf ''gap-sm'' = ''sm''
   \<and> styleBlock (styleId (this_layoutType exampleLayout) [])
        (snd (attributeChangedCallback noAttributes ''gap-sm'' None (Some ''8px'') exampleLayout))
       = styleBlock (styleId (this_layoutType exampleLayout) []) exampleLayout
   \<and> styleBlock (styleId (this_layoutType exampleLayout) []) exampleLayout
       = Some ''@media all {:host {display: flex;}}''
   \<and> styleBlock (styleId (this_layoutType exampleLayout) ''sm'')
        (snd (attributeChangedCallback noAttributes ''gap-sm'' None (Some ''8px'') exampleLayout))
       = Some ''@media (min-width: 600px) {:host {gap: 8px;display: flex;}}''"
proof -
  have a: "aliasOf ''gap-sm'' = ''sm''"
    and m: "map alias (this_breakpoints exampleLayout) = [''sm'']"
    and b: "styleBlock (styleId (this_layoutType exampleLayout) []) exampleLayout
       = Some ''@media all {:host {display: flex;}}''"
    and c: "styleBlock (styleId (this_layoutType exampleLayout) ''sm'')
        (snd (attributeChangedCallback noAttributes ''gap-sm'' None (Some ''8px'') exampleLayout))
       = Some ''@media (min-width: 600px) {:host {gap: 8px;display: flex;}}''"
    by code_simp+
  have "alias ` set (this_breakpoints exampleLayout) = set (map alias (this_breakpoints exampleLayout))"
    by simp
  with a m have "aliasOf ''gap-sm'' \<in> alias ` set (this_breakpoints exampleLayout)"
    by simp
  from breakpoint_isolation[OF this, of noAttributes None "Some ''8px''"] a b c
  show ?thesis by simp
qed

text \<open>
  Claim C10 as it was stated fails when a property is named \<open>a.b\<close>: the change at
  \<open>a-b\<close> (property \<open>a\<close>, unknown alias \<open>b\<close>) is counted under the key \<open>a.b\<close>,
  which the rebuild for the fallback breakpoint reads for the property \<open>a.b\<close>, and the
  value \<open>y\<close> gets a rule of its own.
\<close>

theorem unknown_alias_counterexample:
  "map alias (this_breakpoints dottedSet) = []
   \<and> aliasOf ''a-b'' = ''b''
   \<and> propOf ''a-b'' = ''a''
   \<and> valuesKey ''a'' ''b'' = valuesKey ''a.b'' []
   \<and> synthesized noAttributes ''a-b'' None None dottedSet
       = Inr [(parentKey, [(''display'', ''flex'')]), (allChildKey, []),
              (childKeyOf ''a.b'' [] ''x'', [(''order'', ''x'')])]
   \<and> synthesized noAttributes ''a-b'' None (Some ''y'') dottedSet
       = Inr [(parentKey, [(''display'', ''flex'')]), (allChildKey, []),
              (childKeyOf ''a.b'' [] ''x'', [(''order'', ''x'')]),
              (childKeyOf ''a.b'' [] ''y'', [(''order'', ''y'')])]"
  by code_simp

text \<open>Claim C10 as the code has it: \<open>order-zz="1"\<close> on the example layout.\<close>

theorem unknown_alias_recorded_not_rendered_witness:
  "aliasOf ''order-zz'' = ''zz''
   \<and> valuesOf (projr (afterTracker ''order-zz'' None (Some ''1'') exampleLayout)) ''order.zz''
       = [(''1'', 1)]
   \<and> synthesized noAttributes ''order-zz'' None (Some ''1'') exampleLayout
       = synthesized noAttributes ''order-zz'' None None exampleLayout
   \<and> fst (attributeChangedCallback noAttributes ''order-zz'' None (Some ''1'') exampleLayout) = None
   \<and> styleBlock (styleId (this_layoutType exampleLayout) [])
        (snd (attributeChangedCallback noAttributes ''order-zz'' None (Some ''1'') exampleLayout))
       = Some ''@media all {:host {display: flex;}}''"
proof -
  let ?this3 = "projr (afterTracker ''order-zz'' None (Some ''1'') exampleLayout)"
  have a: "aliasOf ''order-zz'' = ''zz''"
    and m: "map alias (this_breakpoints exampleLayout) = [''sm'']"
    and e: "alias (this_allBreakpoint exampleLayout) = []"
    and n: "namesOf (properties (this_allBreakpoint exampleLayout)) = []"
    and v: "valuesOf ?this3 ''order.zz'' = [(''1'', 1)]"
    and f: "fst (attributeChangedCallback noAttributes ''order-zz'' None (Some ''1'') exampleLayout)
       = None"
    and s: "styleBlock (styleId (this_layoutType exampleLayout) [])
        (snd (attributeChangedCallback noAttributes ''order-zz'' None (Some ''1'') exampleLayout))
       = Some ''@media all {:host {display: flex;}}''"
    by code_simp+
  have "\<not> isl (afterTracker ''order-zz'' None (Some ''1'') exampleLayout)" by code_simp
  then have t: "afterTracker ''order-zz'' None (Some ''1'') exampleLayout = Inr ?this3"
    by (rule afterTracker_projr)
  have 1: "aliasOf ''order-zz'' \<noteq> []" by (simp add: a)
  have "alias ` set (this_breakpoints exampleLayout) = set (map alias (this_breakpoints exampleLayout))"
    by simp
  with a m have 2: "aliasOf ''order-zz'' \<notin> alias ` set (this_breakpoints exampleLayout)"
    by simp
  have 5: "\<forall>p. Some p \<in> set (properties (this_allBreakpoint exampleLayout)) \<longrightarrow>
      name p \<noteq> propOf ''order-zz'' @ ''.'' @ aliasOf ''order-zz''"
    using namesOf_Some[of _ "properties (this_allBreakpoint exampleLayout)"] by (auto simp: n)
  from unknown_alias_recorded_not_rendered[OF 1 2 e t 5, of noAttributes] a v f s
  show ?thesis by simp
qed



lemma dotted_slots:
  "slotOf dottedFirst = (1, ''a.b'', [])"
  "slotOf dottedSecond = (1, ''a'', ''b'')"
  "newValue dottedFirst = Some ''x''"
  "newValue dottedSecond = Some ''x''"
  by code_simp+

text \<open>
  Claim C1 as it was stated fails when a property is named \<open>a.b\<close>: one element
  carries \<open>a.b="x"\<close> and \<open>a-b="x"\<close>; both are counted under the key \<open>a.b\<close>, so the
  count for the property \<open>a\<close> at the alias \<open>b\<close> is 2 while one element carries it.
\<close>

theorem reference_counts_counterexample:
  "wellFormed nothingCarried dottedChanges
   \<and> map name (this_properties dottedLayout) = [''a.b'', ''a'']
   \<and> map slotOf dottedChanges = [(1, ''a.b'', []), (1, ''a'', ''b'')]
   \<and> countOf (deliverAll dottedChanges dottedLayout) (valuesKey ''a'' ''b'') ''x'' = 2
   \<and> elementsCarrying (carriedAfter nothingCarried dottedChanges) ''a'' ''b'' ''x'' = {1}"
proof -
  have "wellFormed nothingCarried dottedChanges"
    and "map name (this_properties dottedLayout) = [''a.b'', ''a'']"
    and "map slotOf dottedChanges = [(1, ''a.b'', []), (1, ''a'', ''b'')]"
    and "countOf (deliverAll dottedChanges dottedLayout) (valuesKey ''a'' ''b'') ''x'' = 2"
    by code_simp+
  moreover have "elementsCarrying (carriedAfter nothingCarried dottedChanges) ''a'' ''b'' ''x'' = {1}"
    by (auto simp: elementsCarrying_def dottedChanges_def dotted_slots nothingCarried_def
        split: if_splits)
  ultimately show ?thesis by simp
qed

text \<open>
  Claim C1 as the code has it, on the example layout: three elements, one of which
  changes its \<open>order\<close> from 1 to 2.
\<close>

theorem reference_counts_witness:
  "wellFormed nothingCarried exampleChanges
   \<and> countOf (deliverAll exampleChanges exampleLayout) (valuesKey ''order'' []) ''1''
       = int (card (carriers (carriedAfter nothingCarried exampleChanges)
                      (valuesKey ''order'' []) ''1''))
   \<and> countOf (deliverAll exampleChanges exampleLayout) (valuesKey ''order'' []) ''1''
       = int (card (elementsCarrying (carriedAfter nothingCarried exampleChanges)
                      ''order'' [] ''1''))
   \<and> countOf (deliverAll exampleChanges exampleLayout) (valuesKey ''order'' []) ''1'' = 1"
proof -
  have w: "wellFormed nothingCarried exampleChanges"
    and c: "countOf (deliverAll exampleChanges exampleLayout) (valuesKey ''order'' []) ''1'' = 1"
    and r: "list_all (\<lambda>c. propOf (attributeName c) \<in> set [''gap'', ''order'']) exampleChanges"
    by code_simp+
  have "name ` set [gapProperty, orderProperty] = set [''gap'', ''order'']"
    by (simp add: gapProperty_def orderProperty_def)
  with r have reg: "\<forall>c \<in> set exampleChanges. propOf (attributeName c)
      \<in> name ` set [gapProperty, orderProperty]"
    by (simp only: list_all_iff)
  have u: "\<forall>b \<in> set [smBreakpoint]. None \<notin> set (properties b)"
    by (simp add: smBreakpoint_def)
  have d: "(\<forall>p \<in> set [gapProperty, orderProperty]. CHR ''.'' \<notin> set (name p))
      \<and> CHR ''.'' \<notin> set ''order''"
    by (simp add: gapProperty_def orderProperty_def)
  from reference_counts[OF w reg u, of "''flex''" "''order''" "[]" "''1''"] d w c
  show ?thesis
    by (simp add: exampleLayout_def)
qed

end
